theory Spec2Isabelle
  imports Complex_Main
begin

section \<open>The transition pipeline of \<open>PAGA2.compute_transitions\<close>\<close>

text \<open>
  The development follows \<^verbatim>\<open>scvelo/tools/paga.py\<close>. Dense \<^verbatim>\<open>numpy\<close> arrays are lists of
  rows; the entries of the working matrix \<^verbatim>\<open>T\<close> are finite floating-point numbers, read
  here as real numbers. The special values a floating-point division can produce
  (infinities, not-a-number) are kept apart in the type \<open>fl\<close> further below.
\<close>

type_synonym matrix = "real list list"

definition square :: "nat \<Rightarrow> 'a list list \<Rightarrow> bool" where
  "square K T \<longleftrightarrow> length T = K \<and> (\<forall>r \<in> set T. length r = K)"

definition nonneg :: "matrix \<Rightarrow> bool" where
  "nonneg T \<longleftrightarrow> (\<forall>r \<in> set T. \<forall>x \<in> set r. 0 \<le> x)"

subsection \<open>Floating-point values and errors\<close>

text \<open>
  A floating-point result is a finite number, an infinity or not-a-number. \<open>fdiv\<close> is the
  division of two finite numbers: a non-zero number over zero is an infinity with the
  sign of the numerator, and 0/0 is not-a-number. Comparisons with not-a-number are
  false. The exceptions of the source are values of the type \<open>error\<close>.
\<close>

datatype fl = NegInf | Fin real | PosInf | NaN

datatype error = ValueError | KeyError

definition fdiv :: "real \<Rightarrow> real \<Rightarrow> fl" where
  "fdiv x y = (if y \<noteq> 0 then Fin (x / y)
               else if x = 0 then NaN else if 0 < x then PosInf else NegInf)"

fun fl_le :: "fl \<Rightarrow> fl \<Rightarrow> bool" where
  "fl_le NaN _ = False"
| "fl_le _ NaN = False"
| "fl_le NegInf _ = True"
| "fl_le _ PosInf = True"
| "fl_le (Fin a) (Fin b) = (a \<le> b)"
| "fl_le _ _ = False"

subsection \<open>Aggregation of the velocity graph over the clusters\<close>

text \<open>
  \<^verbatim>\<open>
  vgraph = (self._adata.uns[vkey] > .1)
  ...
      vgraph[clusters.values.isin(final_cells)] = 0
  ...
      vgraph[:, clusters.values == root] = 0
  membership = self._adata.obs[self._groups_key].cat.codes.values
  g = get_igraph_from_adjacency(vgraph, directed=True)
  vc = igraph.VertexClustering(g, membership=membership)
  cg_full = vc.cluster_graph(combine_edges='sum')
  transitions = get_sparse_from_igraph(cg_full, weight_attr='weight')
  \<close>
  The velocity graph \<open>G\<close> is given by its dense values; \<^verbatim>\<open>vgraph\<close> is a boolean matrix, so
  every edge of the graph \<^verbatim>\<open>g\<close> carries the weight \<^verbatim>\<open>True\<close>, which sums as 1. The
  parameter \<open>final_cells\<close> is \<open>Some\<close> of the categories of the annotation \<^verbatim>\<open>final_cells\<close>
  when that annotation is categorical with string categories, and \<open>rootc\<close> is the
  variable \<^verbatim>\<open>root\<close>. \<^verbatim>\<open>cluster_graph\<close> contracts every cluster into one vertex and then
  simplifies the graph: parallel edges are merged with their weights summed and the
  loops, which are the edges inside one cluster, are removed. The number of clusters is
  the largest membership code plus one. The source raises \<^verbatim>\<open>ValueError\<close> when the shape
  of the velocity graph is not the number of cells in both directions. The look-up of
  the graph under its key in the annotations comes before that and is not modelled: the
  graph is a parameter.

  \<^verbatim>\<open>
  g.add_edges(list(zip(sources, targets)))
  try:
      g.es['weight'] = weights
  except:
      pass
  \<close>
  \<^verbatim>\<open>
  edges = graph.get_edgelist()
  ...
      weights = graph.es[weight_attr]
  ...
  if len(edges) > 0:
      return csr_matrix((weights, zip(*edges)), shape=shape)
  else:
      return csr_matrix(shape)
  \<close>
  When the masked graph has no edge at all, the assignment of the weights fails inside
  the \<^verbatim>\<open>try\<close> and the graph \<^verbatim>\<open>g\<close> is left without the edge attribute \<^verbatim>\<open>weight\<close>; the cluster
  graph has no such attribute either, and \<^verbatim>\<open>graph.es[weight_attr]\<close> raises \<^verbatim>\<open>KeyError\<close>
  before the branch for an empty edge list is reached. When the masked graph has an edge
  the attribute exists, and a cluster graph without edges (every edge lies inside one
  cluster) gives the zero matrix.
\<close>

definition vgraph :: "matrix \<Rightarrow> bool list list" where
  "vgraph G = map (map (\<lambda>x. 1 / 10 < x)) G"

definition cluster_label :: "string list \<Rightarrow> nat list \<Rightarrow> nat \<Rightarrow> string" where
  "cluster_label cats clusters u = cats ! (clusters ! u)"

definition is_final :: "string list \<Rightarrow> nat list \<Rightarrow> string list option \<Rightarrow> nat \<Rightarrow> bool" where
  "is_final cats clusters final_cells u =
     (case final_cells of
        None \<Rightarrow> False
      | Some cs \<Rightarrow> cs \<noteq> [] \<and> cluster_label cats clusters u \<in> set cs)"

definition is_root :: "string list \<Rightarrow> nat list \<Rightarrow> string option \<Rightarrow> nat \<Rightarrow> bool" where
  "is_root cats clusters rootc v = (rootc = Some (cluster_label cats clusters v))"

definition mask_rows :: "(nat \<Rightarrow> bool) \<Rightarrow> bool list list \<Rightarrow> bool list list" where
  "mask_rows sel A =
     map (\<lambda>u. if sel u then replicate (length (A ! u)) False else A ! u) [0..<length A]"

definition mask_cols :: "(nat \<Rightarrow> bool) \<Rightarrow> bool list list \<Rightarrow> bool list list" where
  "mask_cols sel A =
     map (\<lambda>row. map (\<lambda>v. if sel v then False else row ! v) [0..<length row]) A"

definition masked_vgraph ::
  "matrix \<Rightarrow> nat list \<Rightarrow> string list \<Rightarrow> string list option \<Rightarrow> string option \<Rightarrow> bool list list" where
  "masked_vgraph G clusters cats final_cells rootc =
     mask_cols (is_root cats clusters rootc)
       (mask_rows (is_final cats clusters final_cells) (vgraph G))"

definition edges :: "bool list list \<Rightarrow> (nat \<times> nat) list" where
  "edges A =
     concat (map (\<lambda>u. map (\<lambda>v. (u, v)) (filter (\<lambda>v. A ! u ! v) [0..<length (A ! u)]))
       [0..<length A])"

definition n_clusters :: "nat list \<Rightarrow> nat" where
  "n_clusters membership = (if membership = [] then 0 else Max (set membership) + 1)"

definition sizes :: "nat list \<Rightarrow> nat list" where
  "sizes membership =
     map (\<lambda>a. length (filter (\<lambda>c. c = a) membership)) [0..<n_clusters membership]"

definition cluster_graph :: "nat list \<Rightarrow> (nat \<times> nat) list \<Rightarrow> int list list" where
  "cluster_graph membership es =
     map (\<lambda>a. map (\<lambda>b. if a = b then 0
                        else int (length (filter (\<lambda>(u, v). membership ! u = a \<and> membership ! v = b) es)))
            [0..<n_clusters membership])
       [0..<n_clusters membership]"

definition cg_full ::
  "matrix \<Rightarrow> nat list \<Rightarrow> string list \<Rightarrow> string list option \<Rightarrow> string option \<Rightarrow> error + int list list" where
  "cg_full G clusters cats final_cells rootc =
     (if \<not> square (length clusters) G then Inl ValueError
      else let es = edges (masked_vgraph G clusters cats final_cells rootc)
           in if es = [] then Inl KeyError else Inr (cluster_graph clusters es))"

text \<open>The sum of all entries of a coarse matrix.\<close>

definition total :: "int list list \<Rightarrow> int" where
  "total M = sum_list (map sum_list M)"

text \<open>
  The sum of all fine-graph edge weights in the words of the specification: the
  velocity-graph values that exceed the cutoff.
\<close>

definition fine_weight_sum :: "matrix \<Rightarrow> real" where
  "fine_weight_sum G = sum_list (map (\<lambda>r. sum_list (filter (\<lambda>x. 1 / 10 < x) r)) G)"

subsection \<open>Confidence of the transitions\<close>

text \<open>
  \<^verbatim>\<open>
  transitions = transitions - transitions.T
  transitions_conf = transitions.copy()
  transitions = transitions.tocoo()
  total_n = self._neighbors.n_neighbors * np.array(vc.sizes()) * 2
  for i, j, v in zip(transitions.row, transitions.col, transitions.data):
      reference = np.sqrt(total_n[i] * total_n[j])
      transitions_conf[i, j] = 0 if v < 0 else v / reference
  transitions_conf.eliminate_zeros()
  \<close>
  A sparse matrix is given by its dense values; the entries it stores are the non-zero
  ones, which is what the difference of two sparse matrices keeps, and \<open>coo\<close> lists them
  with their positions. The loop writes one entry of \<^verbatim>\<open>transitions_conf\<close> per stored
  entry of \<^verbatim>\<open>transitions\<close>. The array \<^verbatim>\<open>total_n\<close> is an \<^verbatim>\<open>int64\<close> array: its entries and the
  product \<^verbatim>\<open>total_n[i] * total_n[j]\<close> are 64-bit signed integers, and a result outside
  their range wraps around (\<open>wrap64\<close>). The number of neighbours is a 64-bit signed integer
  too (\<open>int64\<close>). The counts of the coarse graph are small integers. The square root of a
  negative number and the quotient 0/0 are not-a-number, and a non-zero number over zero
  is an infinity.
\<close>

definition int64 :: "int \<Rightarrow> bool" where
  "int64 x \<longleftrightarrow> - (2 ^ 63) \<le> x \<and> x < 2 ^ 63"

definition wrap64 :: "int \<Rightarrow> int" where
  "wrap64 x = (x + 2 ^ 63) mod 2 ^ 64 - 2 ^ 63"

definition transitions :: "int list list \<Rightarrow> int list list" where
  "transitions cg =
     map (\<lambda>i. map (\<lambda>j. cg ! i ! j - cg ! j ! i) [0..<length cg]) [0..<length cg]"

definition coo :: "int list list \<Rightarrow> (nat \<times> nat \<times> int) list" where
  "coo M =
     concat (map (\<lambda>i. map (\<lambda>j. (i, j, M ! i ! j)) (filter (\<lambda>j. M ! i ! j \<noteq> 0) [0..<length (M ! i)]))
       [0..<length M])"

definition total_n :: "int \<Rightarrow> nat list \<Rightarrow> int list" where
  "total_n n_neighbors ns = map (\<lambda>s. wrap64 (wrap64 (n_neighbors * int s) * 2)) ns"

definition fsqrt :: "real \<Rightarrow> fl" where
  "fsqrt x = (if x < 0 then NaN else Fin (sqrt x))"

fun over :: "real \<Rightarrow> fl \<Rightarrow> fl" where
  "over x (Fin y) = fdiv x y"
| "over x NaN = NaN"
| "over x PosInf = Fin 0"
| "over x NegInf = Fin 0"

definition conf_value :: "int list \<Rightarrow> nat \<Rightarrow> nat \<Rightarrow> int \<Rightarrow> fl" where
  "conf_value tn i j v =
     (let reference = fsqrt (real_of_int (wrap64 (tn ! i * tn ! j)))
      in if v < 0 then Fin 0 else over (real_of_int v) reference)"

definition set_item :: "fl list list \<Rightarrow> nat \<Rightarrow> nat \<Rightarrow> fl \<Rightarrow> fl list list" where
  "set_item C i j x = C[i := (C ! i)[j := x]]"

definition conf_step :: "int list \<Rightarrow> fl list list \<Rightarrow> nat \<times> nat \<times> int \<Rightarrow> fl list list" where
  "conf_step tn C e = (case e of (i, j, v) \<Rightarrow> set_item C i j (conf_value tn i j v))"

definition transitions_conf :: "int \<Rightarrow> nat list \<Rightarrow> int list list \<Rightarrow> fl list list" where
  "transitions_conf n_neighbors ns M =
     foldl (conf_step (total_n n_neighbors ns)) (map (map (\<lambda>v. Fin (real_of_int v))) M) (coo M)"

text \<open>A stored entry is at least 0: a finite number that is not negative, or plus infinity.\<close>

definition fl_nonneg :: "fl \<Rightarrow> bool" where
  "fl_nonneg x = fl_le (Fin 0) x"

subsection \<open>Domination pruning\<close>

text \<open>
  \<^verbatim>\<open>
  T = transitions_conf.A
  for i in range(len(T)):
      idx = T[i] > 0
      if np.any(idx):
          indirect = np.clip(T[idx], None, T[i][idx][:, None]).max(0)
          T[i, T[i] < indirect] = 0
  \<close>
  \<open>idx\<close> is the boolean mask of row \<open>i\<close>, kept as the list of the selected positions.
  The mask selects rows of \<open>T\<close> (\<^verbatim>\<open>T[idx]\<close>) and entries of row \<open>i\<close> (\<^verbatim>\<open>T[i][idx]\<close>);
  \<^verbatim>\<open>np.clip\<close> with an upper bound only is the minimum, and \<^verbatim>\<open>.max(0)\<close> is the maximum
  down each column of the clipped rows.
\<close>

definition idx :: "matrix \<Rightarrow> nat \<Rightarrow> nat list" where
  "idx T i = filter (\<lambda>j. 0 < T ! i ! j) [0..<length (T ! i)]"

definition clipped :: "matrix \<Rightarrow> nat \<Rightarrow> nat \<Rightarrow> real list" where
  "clipped T i k = map (\<lambda>j. min (T ! j ! k) (T ! i ! j)) (idx T i)"

definition indirect :: "matrix \<Rightarrow> nat \<Rightarrow> real list" where
  "indirect T i = map (\<lambda>k. Max (set (clipped T i k))) [0..<length (T ! i)]"

definition prune_row :: "matrix \<Rightarrow> nat \<Rightarrow> matrix" where
  "prune_row T i =
     (if idx T i = [] then T
      else T[i := map2 (\<lambda>x m. if x < m then 0 else x) (T ! i) (indirect T i)])"

definition prune :: "matrix \<Rightarrow> matrix" where
  "prune T = foldl prune_row T [0..<length T]"

text \<open>
  The pruning stage as the specification words it for parallel execution: the decision
  for every row is taken on the matrix as it stood when the stage was entered, and only
  row \<open>i\<close> of that decision is kept.
\<close>

definition prune_readonly :: "matrix \<Rightarrow> matrix" where
  "prune_readonly T = map (\<lambda>i. prune_row T i ! i) [0..<length T]"

subsection \<open>The threshold\<close>

text \<open>
  \<^verbatim>\<open>
  df = pd.DataFrame(T, index=cats, columns=cats)
  if root is not None:
      df.pop(root)
  self.threshold = np.nanmin(np.nanmax(df.values / (df.values > 0), axis=0)) - 1e-6
  \<close>
  Dividing an entry by the boolean \<^verbatim>\<open>df.values > 0\<close> leaves a positive entry as it is and
  divides every other entry by zero, which is not-a-number for 0 and minus infinity for
  a negative entry. \<^verbatim>\<open>np.nanmax\<close> and \<^verbatim>\<open>np.nanmin\<close> reduce with \<^verbatim>\<open>fmax\<close> and \<^verbatim>\<open>fmin\<close>,
  which prefer the operand that is a number, and raise \<^verbatim>\<open>ValueError\<close> on an empty
  reduction. The data frame needs \<open>T\<close> to have one row and one column per label
  (\<^verbatim>\<open>ValueError\<close> otherwise) and \<^verbatim>\<open>pop\<close> needs the label to be present (\<^verbatim>\<open>KeyError\<close>).
  The parameter \<open>rootc\<close> is the variable \<^verbatim>\<open>root\<close> of the source.
\<close>

fun fmax :: "fl \<Rightarrow> fl \<Rightarrow> fl" where
  "fmax NaN y = y"
| "fmax x NaN = x"
| "fmax x y = (if fl_le x y then y else x)"

fun fmin :: "fl \<Rightarrow> fl \<Rightarrow> fl" where
  "fmin NaN y = y"
| "fmin x NaN = x"
| "fmin x y = (if fl_le x y then x else y)"

definition nanmax :: "fl list \<Rightarrow> error + fl" where
  "nanmax xs = (case xs of [] \<Rightarrow> Inl ValueError | x # ys \<Rightarrow> Inr (foldl fmax x ys))"

definition nanmin :: "fl list \<Rightarrow> error + fl" where
  "nanmin xs = (case xs of [] \<Rightarrow> Inl ValueError | x # ys \<Rightarrow> Inr (foldl fmin x ys))"

fun fsub :: "fl \<Rightarrow> real \<Rightarrow> fl" where
  "fsub (Fin a) e = Fin (a - e)"
| "fsub x e = x"

definition over_positive :: "real \<Rightarrow> fl" where
  "over_positive x = fdiv x (if 0 < x then 1 else 0)"

definition masked_column :: "matrix \<Rightarrow> nat \<Rightarrow> fl list" where
  "masked_column T k = map (\<lambda>r. over_positive (r ! k)) T"

fun collect :: "(error + 'a) list \<Rightarrow> error + 'a list" where
  "collect [] = Inr []"
| "collect (Inl e # xs) = Inl e"
| "collect (Inr x # xs) = (case collect xs of Inl e \<Rightarrow> Inl e | Inr ys \<Rightarrow> Inr (x # ys))"

definition columns :: "string list \<Rightarrow> string option \<Rightarrow> nat list" where
  "columns cats rootc = filter (\<lambda>k. Some (cats ! k) \<noteq> rootc) [0..<length cats]"

definition threshold :: "string list \<Rightarrow> string option \<Rightarrow> matrix \<Rightarrow> error + fl" where
  "threshold cats rootc T =
     (if \<not> square (length cats) T then Inl ValueError
      else if (case rootc of None \<Rightarrow> False | Some r \<Rightarrow> r \<notin> set cats) then Inl KeyError
      else case collect (map (\<lambda>k. nanmax (masked_column T k)) (columns cats rootc)) of
             Inl e \<Rightarrow> Inl e
           | Inr ms \<Rightarrow> (case nanmin ms of
                          Inl e \<Rightarrow> Inl e
                        | Inr m \<Rightarrow> Inr (fsub m (1 / 1000000))))"

text \<open>
  The column maximum in the words of the specification: the maximum among the strictly
  positive entries of column \<open>k\<close>.
\<close>

definition ColMax :: "matrix \<Rightarrow> nat \<Rightarrow> real" where
  "ColMax T k = Max (set (filter (\<lambda>x. 0 < x) (map (\<lambda>r. r ! k) T)))"

subsection \<open>Facts about shapes\<close>

lemma squareD: "square K T \<Longrightarrow> length T = K" "square K T \<Longrightarrow> i < K \<Longrightarrow> length (T ! i) = K"
  by (auto simp: square_def)

subsection \<open>Facts about the aggregation\<close>

lemma masked_vgraph_eq:
  assumes "square N G"
  shows "masked_vgraph G clusters cats final_cells rootc =
     map (\<lambda>u. map (\<lambda>v. 1 / 10 < G ! u ! v \<and> \<not> is_final cats clusters final_cells u
                          \<and> \<not> is_root cats clusters rootc v) [0..<N]) [0..<N]"
proof -
  have len: "length G = N" and row: "\<And>u. u < N \<Longrightarrow> length (G ! u) = N"
    using assms by (simp_all add: squareD)
  let ?f = "is_final cats clusters final_cells"
  let ?r = "is_root cats clusters rootc"
  have v: "vgraph G = map (\<lambda>u. map (\<lambda>v. 1 / 10 < G ! u ! v) [0..<N]) [0..<N]"
    unfolding vgraph_def using len row by (intro nth_equalityI) simp_all
  have m: "mask_rows ?f (vgraph G) =
      map (\<lambda>u. map (\<lambda>v. 1 / 10 < G ! u ! v \<and> \<not> ?f u) [0..<N]) [0..<N]"
    unfolding v mask_rows_def by (rule nth_equalityI) (simp_all add: map_replicate_const)
  show ?thesis
    unfolding masked_vgraph_def m mask_cols_def by (intro nth_equalityI) auto
qed

lemma set_edges:
  "set (edges A) = {(u, v). u < length A \<and> v < length (A ! u) \<and> A ! u ! v}"
  by (auto simp: edges_def)

lemma distinct_concat_pairs:
  assumes "distinct us" and "\<And>u. distinct (f u)"
  shows "distinct (concat (map (\<lambda>u. map (\<lambda>v. (u, v)) (f u)) us))"
  using assms(1) by (induction us) (auto simp: distinct_map inj_on_def assms(2))

lemma distinct_edges: "distinct (edges A)"
  unfolding edges_def by (rule distinct_concat_pairs) simp_all

lemma membership_less: "u < length m \<Longrightarrow> m ! u < n_clusters m"
proof -
  assume u: "u < length m"
  then have "m ! u \<in> set m" by simp
  then have "m ! u \<le> Max (set m)" by (intro Max_ge) simp_all
  moreover have "m \<noteq> []" using u by auto
  ultimately show ?thesis by (simp add: n_clusters_def)
qed

lemma total_cluster_graph:
  "total (cluster_graph m es) =
     (\<Sum>a = 0..<n_clusters m. \<Sum>b = 0..<n_clusters m.
        if a = b then 0 else int (length (filter (\<lambda>(u, v). m ! u = a \<and> m ! v = b) es)))"
  by (simp add: total_def cluster_graph_def interv_sum_list_conv_sum_set_nat comp_def)

lemma pair_sum:
  fixes K x y :: nat
  assumes "x < K" "y < K"
  shows "(\<Sum>a = 0..<K. \<Sum>b = 0..<K. if a \<noteq> b \<and> x = a \<and> y = b then (1::int) else 0)
       = (if x \<noteq> y then 1 else 0)"
proof -
  have "(\<Sum>a = 0..<K. \<Sum>b = 0..<K. if a \<noteq> b \<and> x = a \<and> y = b then (1::int) else 0)
      = (\<Sum>a = 0..<K. \<Sum>b = 0..<K. if b = y then (if a \<noteq> y \<and> x = a then 1 else 0) else 0)"
    by (intro sum.cong refl) auto
  also have "\<dots> = (\<Sum>a = 0..<K. if a \<noteq> y \<and> x = a then 1 else 0)"
    using assms(2) by (simp add: sum.delta)
  also have "\<dots> = (\<Sum>a = 0..<K. if a = x then (if x \<noteq> y then 1 else 0) else 0)"
    by (intro sum.cong refl) auto
  also have "\<dots> = (if x \<noteq> y then 1 else 0)"
    using assms(1) by (simp add: sum.delta)
  finally show ?thesis .
qed

lemma cross_count:
  fixes K :: nat and m :: "nat list"
  assumes "\<forall>(u, v) \<in> set es. m ! u < K \<and> m ! v < K"
  shows "(\<Sum>a = 0..<K. \<Sum>b = 0..<K.
            if a = b then 0 else int (length (filter (\<lambda>(u, v). m ! u = a \<and> m ! v = b) es)))
       = int (length (filter (\<lambda>(u, v). m ! u \<noteq> m ! v) es))"
  using assms
proof (induction es)
  case Nil
  show ?case by (simp cong: if_cong)
next
  case (Cons e es)
  obtain u v where e: "e = (u, v)" by (cases e)
  have uv: "m ! u < K" "m ! v < K" using Cons.prems e by auto
  have rest: "\<forall>(u, v) \<in> set es. m ! u < K \<and> m ! v < K" using Cons.prems by auto
  have split: "(if a = b then 0 else int (length (filter (\<lambda>(u, v). m ! u = a \<and> m ! v = b) (e # es))))
      = (if a = b then 0 else int (length (filter (\<lambda>(u, v). m ! u = a \<and> m ! v = b) es)))
        + (if a \<noteq> b \<and> m ! u = a \<and> m ! v = b then 1 else 0)" for a b
    by (cases "a = b") (simp_all add: e)
  have "(\<Sum>a = 0..<K. \<Sum>b = 0..<K.
            if a = b then 0 else int (length (filter (\<lambda>(u, v). m ! u = a \<and> m ! v = b) (e # es))))
      = (\<Sum>a = 0..<K. \<Sum>b = 0..<K.
            if a = b then 0 else int (length (filter (\<lambda>(u, v). m ! u = a \<and> m ! v = b) es)))
        + (\<Sum>a = 0..<K. \<Sum>b = 0..<K. if a \<noteq> b \<and> m ! u = a \<and> m ! v = b then 1 else 0)"
    by (simp only: split sum.distrib)
  also have "\<dots> = int (length (filter (\<lambda>(u, v). m ! u \<noteq> m ! v) es))
        + (if m ! u \<noteq> m ! v then 1 else 0)"
    by (simp only: Cons.IH [OF rest] pair_sum [OF uv])
  also have "\<dots> = int (length (filter (\<lambda>(u, v). m ! u \<noteq> m ! v) (e # es)))"
    by (simp add: e)
  finally show ?case .
qed

lemma set_masked_edges:
  assumes "square N G"
  shows "set (edges (masked_vgraph G clusters cats final_cells rootc)) =
     {(u, v). u < N \<and> v < N \<and> 1 / 10 < G ! u ! v
        \<and> \<not> is_final cats clusters final_cells u \<and> \<not> is_root cats clusters rootc v}"
  unfolding masked_vgraph_eq [OF assms] set_edges by auto

lemma total_cluster_graph_edges:
  assumes "\<forall>(u, v) \<in> set es. u < length m \<and> v < length m"
  shows "total (cluster_graph m es) = int (length (filter (\<lambda>(u, v). m ! u \<noteq> m ! v) es))"
proof -
  have "\<forall>(u, v) \<in> set es. m ! u < n_clusters m \<and> m ! v < n_clusters m"
    using assms by (auto simp: membership_less)
  then show ?thesis
    unfolding total_cluster_graph by (rule cross_count)
qed

lemma total_masked_edges:
  assumes sq: "square (length clusters) G"
  shows "total (cluster_graph clusters (edges (masked_vgraph G clusters cats final_cells rootc)))
           = int (card {(u, v). u < length clusters \<and> v < length clusters \<and> 1 / 10 < G ! u ! v
                \<and> \<not> is_final cats clusters final_cells u \<and> \<not> is_root cats clusters rootc v
                \<and> clusters ! u \<noteq> clusters ! v})"
proof -
  let ?es = "edges (masked_vgraph G clusters cats final_cells rootc)"
  have in_range: "\<forall>(u, v) \<in> set ?es. u < length clusters \<and> v < length clusters"
    unfolding set_masked_edges [OF sq] by auto
  have "length (filter (\<lambda>(u, v). clusters ! u \<noteq> clusters ! v) ?es)
      = card (set (filter (\<lambda>(u, v). clusters ! u \<noteq> clusters ! v) ?es))"
    by (simp only: distinct_card [OF distinct_filter [OF distinct_edges]])
  also have "set (filter (\<lambda>(u, v). clusters ! u \<noteq> clusters ! v) ?es)
      = {(u, v). u < length clusters \<and> v < length clusters \<and> 1 / 10 < G ! u ! v
                \<and> \<not> is_final cats clusters final_cells u \<and> \<not> is_root cats clusters rootc v
                \<and> clusters ! u \<noteq> clusters ! v}"
    unfolding set_filter set_masked_edges [OF sq] by auto
  finally show ?thesis
    by (simp only: total_cluster_graph_edges [OF in_range])
qed

lemma cg_full_Inr:
  assumes "square (length clusters) G"
    and "edges (masked_vgraph G clusters cats final_cells rootc) \<noteq> []"
  shows "cg_full G clusters cats final_cells rootc
           = Inr (cluster_graph clusters (edges (masked_vgraph G clusters cats final_cells rootc)))"
  using assms by (simp add: cg_full_def)

lemma cg_full_InrD:
  assumes "cg_full G clusters cats final_cells rootc = Inr cg"
  shows "square (length clusters) G"
    and "edges (masked_vgraph G clusters cats final_cells rootc) \<noteq> []"
    and "cg = cluster_graph clusters (edges (masked_vgraph G clusters cats final_cells rootc))"
  using assms by (auto simp: cg_full_def Let_def split: if_splits)

lemma masking_extensional:
  assumes sq: "square (length clusters) G" and sq': "square (length clusters) G'"
    and agree: "\<forall>u < length clusters. \<forall>v < length clusters.
       \<not> is_final cats clusters final_cells u \<longrightarrow> \<not> is_root cats clusters rootc v
         \<longrightarrow> G ! u ! v = G' ! u ! v"
  shows "cg_full G clusters cats final_cells rootc = cg_full G' clusters cats final_cells rootc"
proof -
  have "masked_vgraph G clusters cats final_cells rootc
      = masked_vgraph G' clusters cats final_cells rootc"
    unfolding masked_vgraph_eq [OF sq] masked_vgraph_eq [OF sq']
    using agree by (intro map_cong refl) auto
  then show ?thesis
    using sq sq' by (simp add: cg_full_def)
qed

text \<open>
  Claim C6 (aggregation conservation) does not hold: an edge of velocity 0.5 between two
  clusters enters the coarse graph with weight 1, and an edge inside one cluster does
  not enter it at all.
\<close>

theorem aggregation_conservation_counterexample:
  "cg_full [[0, 1/2], [0, 0]] [0, 1] [''a'', ''b''] None None = Inr [[0, 1], [0, 0]]
   \<and> real_of_int (total [[0, 1], [0, 0]]) \<noteq> fine_weight_sum [[0, 1/2], [0, 0]]
   \<and> cg_full [[0, 1], [0, 0]] [0, 0] [''a''] None None = Inr [[0]]
   \<and> real_of_int (total [[0]]) \<noteq> fine_weight_sum [[0, 1], [0, 0]]"
proof -
  have a: "cg_full [[0, 1/2], [0, 0]] [0, 1] [''a'', ''b''] None None = Inr [[0, 1], [0, 0]]"
    by (simp add: cg_full_def square_def cluster_graph_def edges_def masked_vgraph_def
        mask_cols_def mask_rows_def vgraph_def is_root_def is_final_def n_clusters_def)
  have b: "cg_full [[0, 1], [0, 0]] [0, 0] [''a''] None None = Inr [[0]]"
    by (simp add: cg_full_def square_def cluster_graph_def edges_def masked_vgraph_def
        mask_cols_def mask_rows_def vgraph_def is_root_def is_final_def n_clusters_def)
  have c: "real_of_int (total [[0, 1], [0, 0]]) \<noteq> fine_weight_sum [[0, 1/2], [0, 0]]"
    by (simp add: total_def fine_weight_sum_def)
  have d: "real_of_int (total [[0]]) \<noteq> fine_weight_sum [[0, 1], [0, 0]]"
    by (simp add: total_def fine_weight_sum_def)
  show ?thesis using a b c d by (simp only: simp_thms)
qed

text \<open>
  Claim C6 as amended: with no masks and at least one velocity-graph entry above the
  cutoff, the sum of all coarse-graph entries is the number of velocity-graph entries
  above the cutoff whose source and target lie in different clusters.
\<close>

theorem aggregation_counts_crossing_edges:
  assumes sq: "square (length clusters) G"
    and edge: "u0 < length clusters" "v0 < length clusters" "1 / 10 < G ! u0 ! v0"
  shows "\<exists>cg. cg_full G clusters cats None None = Inr cg
       \<and> total cg = int (card {(u, v). u < length clusters \<and> v < length clusters
                \<and> 1 / 10 < G ! u ! v \<and> clusters ! u \<noteq> clusters ! v})"
proof -
  let ?es = "edges (masked_vgraph G clusters cats None None)"
  have "(u0, v0) \<in> set ?es"
    unfolding set_masked_edges [OF sq] using edge by (simp add: is_final_def is_root_def)
  then have ne: "?es \<noteq> []" by auto
  have "{(u, v). u < length clusters \<and> v < length clusters \<and> 1 / 10 < G ! u ! v
           \<and> \<not> is_final cats clusters None u \<and> \<not> is_root cats clusters None v
           \<and> clusters ! u \<noteq> clusters ! v}
      = {(u, v). u < length clusters \<and> v < length clusters
           \<and> 1 / 10 < G ! u ! v \<and> clusters ! u \<noteq> clusters ! v}"
    by (simp add: is_final_def is_root_def)
  then have "total (cluster_graph clusters ?es)
      = int (card {(u, v). u < length clusters \<and> v < length clusters
           \<and> 1 / 10 < G ! u ! v \<and> clusters ! u \<noteq> clusters ! v})"
    using total_masked_edges [OF sq, of cats None None] by simp
  then show ?thesis
    using cg_full_Inr [OF sq ne] by (intro exI conjI)
qed

theorem aggregation_counts_crossing_edges_witness:
  "square (length [0, 1, 1::nat]) [[0::real, 1/2, 1], [0, 0, 1], [1/20, 0, 0]]
   \<and> 1 / 10 < [[0::real, 1/2, 1], [0, 0, 1], [1/20, 0, 0]] ! 0 ! 1
   \<and> (\<exists>cg. cg_full [[0, 1/2, 1], [0, 0, 1], [1/20, 0, 0]] [0, 1, 1] [''a'', ''b''] None None = Inr cg
        \<and> total cg = int (card {(u, v). u < length [0, 1, 1::nat] \<and> v < length [0, 1, 1::nat]
             \<and> 1 / 10 < [[0, 1/2, 1], [0, 0, 1], [1/20, 0, 0::real]] ! u ! v
             \<and> [0, 1, 1::nat] ! u \<noteq> [0, 1, 1] ! v}))"
proof -
  have sq: "square (length [0, 1, 1::nat]) [[0::real, 1/2, 1], [0, 0, 1], [1/20, 0, 0]]"
    by (simp add: square_def)
  have u: "0 < length [0, 1, 1::nat]" and v: "1 < length [0, 1, 1::nat]" by simp_all
  have e: "1 / 10 < [[0::real, 1/2, 1], [0, 0, 1], [1/20, 0, 0]] ! 0 ! 1" by simp
  from sq e aggregation_counts_crossing_edges [OF sq u v e, of "[''a'', ''b'']"]
  show ?thesis by (intro conjI)
qed

text \<open>
  Claim C7 (sink/root masking). The rows of the final (sink) cells are zeroed before the
  aggregation, but on a velocity graph whose only edge starts at a final cell the masked
  graph has no edge left, and the aggregation raises \<^verbatim>\<open>KeyError\<close> where the claim has a
  coarse graph of total weight zero.
\<close>

theorem masking_single_sink_edge:
  "edges (masked_vgraph [[0, 1/2], [0, 0]] [0, 1] [''a'', ''b''] (Some [''a'']) None) = []
   \<and> cg_full [[0, 1/2], [0, 0]] [0, 1] [''a'', ''b''] (Some [''a'']) None = Inl KeyError"
proof -
  have a: "edges (masked_vgraph [[0, 1/2], [0, 0]] [0, 1] [''a'', ''b''] (Some [''a'']) None) = []"
    by (simp add: edges_def masked_vgraph_def mask_cols_def mask_rows_def vgraph_def
        is_root_def is_final_def cluster_label_def)
  have b: "cg_full [[0, 1/2], [0, 0]] [0, 1] [''a'', ''b''] (Some [''a'']) None = Inl KeyError"
    using a by (simp add: cg_full_def square_def)
  show ?thesis using a b by (rule conjI)
qed

subsection \<open>Facts about the confidence of the transitions\<close>

lemma set_item_other: "(i', j') \<noteq> (i, j) \<Longrightarrow> set_item C i' j' x ! i ! j = C ! i ! j"
  by (cases "i' = i"; cases "i < length C") (auto simp: set_item_def list_update_beyond not_less)

lemma set_item_same:
  "i < length C \<Longrightarrow> j < length (C ! i) \<Longrightarrow> set_item C i j x ! i ! j = x"
  by (simp add: set_item_def)

lemma length_set_item: "length (set_item C i j x) = length C"
  by (simp add: set_item_def)

lemma length_set_item_row: "length (set_item C i j x ! k) = length (C ! k)"
  by (cases "k = i"; cases "i < length C") (simp_all add: set_item_def list_update_beyond not_less)

lemma length_conf_step: "length (conf_step tn C e) = length C"
  by (cases e) (simp add: conf_step_def length_set_item)

lemma length_conf_step_row: "length (conf_step tn C e ! k) = length (C ! k)"
  by (cases e) (simp add: conf_step_def length_set_item_row)

lemma foldl_conf_step_other:
  assumes "\<forall>(i', j', v) \<in> set xs. (i', j') \<noteq> (i, j)"
  shows "foldl (conf_step tn) C xs ! i ! j = C ! i ! j"
  using assms
proof (induction xs arbitrary: C)
  case Nil
  show ?case by simp
next
  case (Cons e xs)
  obtain i' j' v where e: "e = (i', j', v)" by (cases e)
  have ne: "(i', j') \<noteq> (i, j)" using Cons.prems e by auto
  have rest: "\<forall>(i', j', v) \<in> set xs. (i', j') \<noteq> (i, j)" using Cons.prems by auto
  have "foldl (conf_step tn) C (e # xs) ! i ! j = conf_step tn C e ! i ! j"
    using Cons.IH [OF rest] by simp
  also have "\<dots> = C ! i ! j"
    using set_item_other [OF ne] by (simp add: e conf_step_def)
  finally show ?case .
qed

lemma foldl_conf_step_written:
  assumes "(i, j, v) \<in> set xs"
    and "distinct (map (\<lambda>(i, j, v). (i, j)) xs)"
    and "i < length C" and "j < length (C ! i)"
  shows "foldl (conf_step tn) C xs ! i ! j = conf_value tn i j v"
  using assms
proof (induction xs arbitrary: C)
  case Nil
  then show ?case by simp
next
  case (Cons e xs)
  obtain i' j' v' where e: "e = (i', j', v')" by (cases e)
  have d: "distinct (map (\<lambda>(i, j, v). (i, j)) xs)"
    and fresh: "(i', j') \<notin> set (map (\<lambda>(i, j, v). (i, j)) xs)"
    using Cons.prems(2) by (simp_all add: e)
  show ?case
  proof (cases "(i, j, v) = e")
    case True
    then have ij: "i' = i" "j' = j" "v' = v" using e by simp_all
    have "\<forall>(a, b, w) \<in> set xs. (a, b) \<noteq> (i, j)"
      using fresh ij by force
    then have "foldl (conf_step tn) (conf_step tn C e) xs ! i ! j = conf_step tn C e ! i ! j"
      by (rule foldl_conf_step_other)
    also have "\<dots> = conf_value tn i j v"
      using Cons.prems(3,4) by (simp add: e ij conf_step_def set_item_same)
    finally show ?thesis by simp
  next
    case False
    then have mem: "(i, j, v) \<in> set xs" using Cons.prems(1) by auto
    have "foldl (conf_step tn) (conf_step tn C e) xs ! i ! j = conf_value tn i j v"
      using mem d Cons.prems(3,4)
      by (intro Cons.IH) (simp_all add: length_conf_step length_conf_step_row)
    then show ?thesis by simp
  qed
qed

lemma set_coo:
  "set (coo M) = {(i, j, v). i < length M \<and> j < length (M ! i) \<and> v = M ! i ! j \<and> v \<noteq> 0}"
  by (auto simp: coo_def)

lemma map_pos_coo:
  "map (\<lambda>(i, j, v). (i, j)) (coo M) =
     concat (map (\<lambda>i. map (\<lambda>j. (i, j)) (filter (\<lambda>j. M ! i ! j \<noteq> 0) [0..<length (M ! i)]))
       [0..<length M])"
  by (simp add: coo_def map_concat comp_def)

lemma distinct_coo: "distinct (map (\<lambda>(i, j, v). (i, j)) (coo M))"
  unfolding map_pos_coo by (rule distinct_concat_pairs) simp_all

lemma transitions_conf_nth:
  assumes "i < length M" and "j < length (M ! i)"
  shows "transitions_conf n ns M ! i ! j =
     (if M ! i ! j = 0 then Fin 0 else conf_value (total_n n ns) i j (M ! i ! j))"
proof (cases "M ! i ! j = 0")
  case True
  have "\<forall>(i', j', v) \<in> set (coo M). (i', j') \<noteq> (i, j)"
    using True by (auto simp: set_coo)
  then have "transitions_conf n ns M ! i ! j = map (map (\<lambda>v. Fin (real_of_int v))) M ! i ! j"
    unfolding transitions_conf_def by (rule foldl_conf_step_other)
  then show ?thesis using True assms by simp
next
  case False
  have "(i, j, M ! i ! j) \<in> set (coo M)" using False assms by (simp add: set_coo)
  then have "transitions_conf n ns M ! i ! j = conf_value (total_n n ns) i j (M ! i ! j)"
    unfolding transitions_conf_def using assms
    by (intro foldl_conf_step_written distinct_coo) simp_all
  then show ?thesis using False by simp
qed

lemma transitions_nth:
  "i < length cg \<Longrightarrow> j < length cg \<Longrightarrow> transitions cg ! i ! j = cg ! i ! j - cg ! j ! i"
  by (simp add: transitions_def)

lemma square_transitions: "square (length cg) (transitions cg)"
  by (simp add: square_def transitions_def)

lemma wrap64_id: "int64 x \<Longrightarrow> wrap64 x = x"
  by (simp add: int64_def wrap64_def)

lemma wrap64_mod: "wrap64 a mod 2 ^ 64 = a mod 2 ^ 64"
  by (simp add: wrap64_def mod_simps)

lemma wrap64_eqI: "a mod 2 ^ 64 = b mod 2 ^ 64 \<Longrightarrow> wrap64 a = wrap64 b"
  unfolding wrap64_def by (metis mod_add_left_eq)

lemma wrap64_mult_left: "wrap64 (wrap64 a * b) = wrap64 (a * b)"
  by (rule wrap64_eqI) (metis wrap64_mod mod_mult_left_eq)

lemma wrap64_mult_wrap: "wrap64 (wrap64 a * wrap64 b) = wrap64 (a * b)"
  by (rule wrap64_eqI) (metis wrap64_mod mod_mult_eq)

lemma total_n_product_nonneg:
  "0 \<le> (n * int a * 2) * (n * int b * 2)"
proof -
  have e: "(n * int a * 2) * (n * int b * 2) = (n * n) * (int a * int b * 4)"
    by (simp add: algebra_simps)
  have "0 \<le> n * n" by (rule zero_le_square)
  moreover have "0 \<le> int a * int b * 4" by simp
  ultimately have "0 \<le> (n * n) * (int a * int b * 4)" by (rule mult_nonneg_nonneg)
  then show ?thesis by (simp only: e)
qed

lemma total_n_nth: "i < length ns \<Longrightarrow> total_n n ns ! i = wrap64 (n * int (ns ! i) * 2)"
  by (simp add: total_n_def wrap64_mult_left)

lemma total_n_product:
  assumes "i < length ns" and "j < length ns"
    and "int64 ((n * int (ns ! i) * 2) * (n * int (ns ! j) * 2))"
  shows "wrap64 (total_n n ns ! i * total_n n ns ! j)
       = (n * int (ns ! i) * 2) * (n * int (ns ! j) * 2)"
  using assms by (simp only: total_n_nth wrap64_mult_wrap wrap64_id)

lemma product_nonneg_real:
  "0 \<le> real_of_int (n * int a * 2) * real_of_int (n * int b * 2)"
proof -
  have "0 \<le> real_of_int ((n * int a * 2) * (n * int b * 2))"
    by (simp only: of_int_0_le_iff total_n_product_nonneg)
  then show ?thesis by (simp only: of_int_mult)
qed

lemma reference_nonneg:
  "0 \<le> sqrt (real_of_int (n * int a * 2) * real_of_int (n * int b * 2))"
  using product_nonneg_real by (rule real_sqrt_ge_zero)

lemma conf_value_eq:
  assumes "i < length ns" and "j < length ns"
    and "int64 ((n * int (ns ! i) * 2) * (n * int (ns ! j) * 2))"
  shows "conf_value (total_n n ns) i j v =
     (if v < 0 then Fin 0
      else fdiv (real_of_int v)
             (sqrt (real_of_int (n * int (ns ! i) * 2) * real_of_int (n * int (ns ! j) * 2))))"
proof -
  let ?p = "real_of_int (n * int (ns ! i) * 2) * real_of_int (n * int (ns ! j) * 2)"
  have "\<not> ?p < 0" using product_nonneg_real [of n "ns ! i" "ns ! j"] by (simp only: not_less)
  then have f: "fsqrt ?p = Fin (sqrt ?p)"
    by (simp only: fsqrt_def if_False)
  have "conf_value (total_n n ns) i j v =
      (if v < 0 then Fin 0 else over (real_of_int v) (fsqrt ?p))"
    by (simp only: conf_value_def total_n_product [OF assms] of_int_mult Let_def)
  then show ?thesis by (simp only: f over.simps)
qed

lemma fdiv_nonneg:
  assumes "0 < x" and "0 \<le> y"
  shows "fl_nonneg (fdiv x y)"
proof (cases "y = 0")
  case True
  then show ?thesis using assms(1) by (simp add: fdiv_def fl_nonneg_def)
next
  case False
  then have "0 \<le> x / y" using assms by simp
  then show ?thesis using False by (simp add: fdiv_def fl_nonneg_def)
qed

lemma fdiv_not_NaN: "x \<noteq> 0 \<Longrightarrow> fdiv x y \<noteq> NaN"
  by (simp add: fdiv_def)

text \<open>
  Claim C8 (confidence normalization) does not hold for every neighbour count: the
  products are taken in 64-bit integers. With 1518500250 neighbours and two groups of
  one cell each, both entries of \<^verbatim>\<open>total_n\<close> are 3037000500 and their product exceeds the
  largest 64-bit integer; it wraps around to a negative number, the square root is
  not-a-number and so is the stored confidence of the flow 1 from group 0 to group 1. It
  is neither the quotient of the claim nor at least 0.
\<close>

theorem confidence_normalization_counterexample:
  "int64 1518500250
   \<and> transitions [[0, 1], [0, 0]] ! 0 ! 1 = 1
   \<and> wrap64 (total_n 1518500250 [1, 1] ! 0 * total_n 1518500250 [1, 1] ! 1) < 0
   \<and> transitions_conf 1518500250 [1, 1] (transitions [[0, 1], [0, 0]]) ! 0 ! 1 = NaN
   \<and> transitions_conf 1518500250 [1, 1] (transitions [[0, 1], [0, 0]]) ! 0 ! 1
       \<noteq> fdiv 1 (sqrt (real_of_int (1518500250 * int 1 * 2) * real_of_int (1518500250 * int 1 * 2)))
   \<and> \<not> fl_nonneg (transitions_conf 1518500250 [1, 1] (transitions [[0, 1], [0, 0]]) ! 0 ! 1)"
proof -
  let ?M = "transitions [[0, 1], [0, 0]]"
  have t: "?M = [[0, 1], [- 1, 0]]" by (simp add: transitions_def)
  have r: "int64 1518500250" by (simp add: int64_def)
  have p: "wrap64 (total_n 1518500250 [1, 1] ! 0 * total_n 1518500250 [1, 1] ! 1)
      = - 9223372036709301616"
    by (simp add: total_n_def wrap64_def)
  have i: "0 < length ?M" and j: "1 < length (?M ! 0)" by (simp_all add: t)
  have c: "transitions_conf 1518500250 [1, 1] ?M ! 0 ! 1 = NaN"
    using transitions_conf_nth [OF i j, of 1518500250 "[1, 1]"]
    by (simp add: t conf_value_def total_n_def wrap64_def fsqrt_def)
  have d: "fdiv 1 (sqrt (real_of_int (1518500250 * int 1 * 2) * real_of_int (1518500250 * int 1 * 2)))
      \<noteq> NaN"
    by (rule fdiv_not_NaN) simp
  have a: "?M ! 0 ! 1 = 1" by (simp add: t)
  have e: "transitions_conf 1518500250 [1, 1] ?M ! 0 ! 1
      \<noteq> fdiv 1 (sqrt (real_of_int (1518500250 * int 1 * 2) * real_of_int (1518500250 * int 1 * 2)))"
    unfolding c using d by (rule not_sym)
  have n: "\<not> fl_nonneg (transitions_conf 1518500250 [1, 1] ?M ! 0 ! 1)"
    unfolding c by (simp add: fl_nonneg_def)
  have q: "wrap64 (total_n 1518500250 [1, 1] ! 0 * total_n 1518500250 [1, 1] ! 1) < 0"
    unfolding p by simp
  show ?thesis using r a q c e n by (intro conjI)
qed

text \<open>
  Claim C8 as amended: the claim holds wherever the neighbour count is a 64-bit integer
  and the product \<open>ExpectedTotal[i] * ExpectedTotal[j]\<close> is one too. With
  \<open>Flow = CoarseGraph - CoarseGraph\<close> transposed and
  \<open>ExpectedTotal[i] = NeighborCount * GroupSizes[i] * 2\<close>: at every non-zero \<open>Flow[i,j]\<close>
  the confidence is 0 when \<open>Flow[i,j] < 0\<close> and the quotient of \<open>Flow[i,j]\<close> by
  \<open>sqrt(ExpectedTotal[i] * ExpectedTotal[j])\<close> otherwise, and the entry of the confidence
  matrix is at least 0.
\<close>

theorem confidence_normalization:
  assumes sq: "square K cg" and ns: "length ns = K" and i: "i < K" and j: "j < K"
    and n: "int64 n"
    and range: "int64 ((n * int (ns ! i) * 2) * (n * int (ns ! j) * 2))"
  shows "transitions cg ! i ! j = cg ! i ! j - cg ! j ! i
       \<and> (transitions cg ! i ! j \<noteq> 0 \<longrightarrow>
            transitions_conf n ns (transitions cg) ! i ! j =
              (if transitions cg ! i ! j < 0 then Fin 0
               else fdiv (real_of_int (transitions cg ! i ! j))
                      (sqrt (real_of_int (n * int (ns ! i) * 2)
                           * real_of_int (n * int (ns ! j) * 2)))))
       \<and> fl_nonneg (transitions_conf n ns (transitions cg) ! i ! j)"
proof -
  let ?M = "transitions cg"
  let ?v = "?M ! i ! j"
  let ?r = "sqrt (real_of_int (n * int (ns ! i) * 2) * real_of_int (n * int (ns ! j) * 2))"
  have len: "length cg = K" using sq by (simp add: squareD)
  have flow: "?v = cg ! i ! j - cg ! j ! i"
    using i j len by (simp add: transitions_nth)
  have iM: "i < length ?M" and jM: "j < length (?M ! i)"
    using i j len by (simp_all add: transitions_def)
  have ins: "i < length ns" and jns: "j < length ns" using i j ns by simp_all
  have entry: "transitions_conf n ns ?M ! i ! j =
      (if ?v = 0 then Fin 0 else if ?v < 0 then Fin 0 else fdiv (real_of_int ?v) ?r)"
    by (simp only: transitions_conf_nth [OF iM jM] conf_value_eq [OF ins jns range])
  have "fl_nonneg (transitions_conf n ns ?M ! i ! j)"
  proof (cases "0 < ?v")
    case True
    have "0 < real_of_int ?v" using True by simp
    then have "fl_nonneg (fdiv (real_of_int ?v) ?r)"
      using reference_nonneg by (rule fdiv_nonneg)
    then show ?thesis using True entry by simp
  next
    case False
    then have "transitions_conf n ns ?M ! i ! j = Fin 0" using entry by auto
    then show ?thesis by (simp add: fl_nonneg_def)
  qed
  then show ?thesis using flow entry by simp
qed

theorem confidence_normalization_witness:
  "square 3 [[0, 2, 0], [1, 0, 1], [0, 0, 0::int]] \<and> length [1, 1, 1::nat] = 3
   \<and> int64 1 \<and> int64 ((1 * int ([1, 1, 1] ! 0) * 2) * (1 * int ([1, 1, 1] ! 1) * 2))
   \<and> transitions [[0, 2, 0], [1, 0, 1], [0, 0, 0]] ! 0 ! 1 = 1
   \<and> transitions_conf 1 [1, 1, 1] (transitions [[0, 2, 0], [1, 0, 1], [0, 0, 0]]) ! 0 ! 1 = Fin (1 / 2)
   \<and> transitions_conf 1 [1, 1, 1] (transitions [[0, 2, 0], [1, 0, 1], [0, 0, 0]]) ! 1 ! 0 = Fin 0"
proof -
  let ?cg = "[[0, 2, 0], [1, 0, 1], [0, 0, 0::int]]"
  have sq: "square 3 ?cg" by (simp add: square_def)
  have ns: "length [1, 1, 1::nat] = 3" by simp
  have n: "int64 1" by (simp add: int64_def)
  have r01: "int64 ((1 * int ([1, 1, 1] ! 0) * 2) * (1 * int ([1, 1, 1] ! 1) * 2))"
    by (simp add: int64_def)
  have r10: "int64 ((1 * int ([1, 1, 1] ! 1) * 2) * (1 * int ([1, 1, 1] ! 0) * 2))"
    by (simp add: int64_def)
  have i0: "(0::nat) < 3" and i1: "(1::nat) < 3" by simp_all
  have t: "transitions ?cg = [[0, 1, 0], [- 1, 0, 1], [0, - 1, 0]]"
    by (simp add: transitions_def)
  have a: "transitions_conf 1 [1, 1, 1] (transitions ?cg) ! 0 ! 1 = Fin (1 / 2)"
    using confidence_normalization [OF sq ns i0 i1 n r01] unfolding t by (simp add: fdiv_def)
  have b: "transitions_conf 1 [1, 1, 1] (transitions ?cg) ! 1 ! 0 = Fin 0"
    using confidence_normalization [OF sq ns i1 i0 n r10] unfolding t by simp
  have c: "transitions ?cg ! 0 ! 1 = 1" unfolding t by simp
  show ?thesis using sq ns n r01 a b c by (intro conjI)
qed

lemma length_cluster_graph: "length (cluster_graph m es) = n_clusters m"
  by (simp add: cluster_graph_def)

lemma square_cluster_graph: "square (n_clusters m) (cluster_graph m es)"
  by (auto simp: square_def cluster_graph_def)

lemma cluster_graph_nth:
  assumes "i < n_clusters m" and "j < n_clusters m"
  shows "cluster_graph m es ! i ! j =
     (if i = j then 0 else int (length (filter (\<lambda>(u, v). m ! u = i \<and> m ! v = j) es)))"
  using assms by (simp add: cluster_graph_def)

lemma sizes_nth: "i < n_clusters m \<Longrightarrow> sizes m ! i = length (filter (\<lambda>c. c = i) m)"
  by (simp add: sizes_def)

lemma length_sizes: "length (sizes m) = n_clusters m"
  by (simp add: sizes_def)

lemma sizes_pos:
  assumes "u < length m"
  shows "0 < sizes m ! (m ! u)"
proof -
  have "m ! u \<in> set (filter (\<lambda>c. c = m ! u) m)" using assms by simp
  then have "filter (\<lambda>c. c = m ! u) m \<noteq> []" by (metis empty_iff empty_set)
  then show ?thesis using membership_less [OF assms] by (simp add: sizes_nth)
qed

lemma cluster_graph_nonzero:
  assumes "i < n_clusters m" and "j < n_clusters m"
    and "cluster_graph m es ! i ! j \<noteq> 0"
    and "\<forall>(u, v) \<in> set es. u < length m \<and> v < length m"
  shows "0 < sizes m ! i \<and> 0 < sizes m ! j"
proof -
  have "filter (\<lambda>(u, v). m ! u = i \<and> m ! v = j) es \<noteq> []"
    using assms(3) unfolding cluster_graph_nth [OF assms(1,2)] by (auto split: if_splits)
  then obtain e where e: "e \<in> set (filter (\<lambda>(u, v). m ! u = i \<and> m ! v = j) es)"
    by (meson last_in_set)
  obtain u v where uv: "e = (u, v)" by (cases e)
  have mem: "(u, v) \<in> set es" and mu: "m ! u = i" and mv: "m ! v = j"
    using e uv by simp_all
  have "u < length m" "v < length m" using assms(4) mem by auto
  then have "0 < sizes m ! (m ! u)" "0 < sizes m ! (m ! v)" by (simp_all add: sizes_pos)
  then show ?thesis by (simp only: mu mv)
qed

text \<open>
  Claim C10 (the division is well defined) does not hold for every neighbour count of
  at least 1. With 2147483648 neighbours and two groups of one cell each, both entries
  of \<^verbatim>\<open>total_n\<close> are 4294967296 and their product is the 64th power of 2, which wraps
  around to 0 in 64-bit integers: the divisor is 0 and the stored confidence of the flow
  1 from group 0 to group 1 is infinite.
\<close>

theorem normalization_well_defined_counterexample:
  "cg_full [[0, 1/2], [0, 0]] [0, 1] [''a'', ''b''] None None = Inr [[0, 1], [0, 0]]
   \<and> sizes [0, 1] = [1, 1]
   \<and> (1::int) \<le> 2147483648 \<and> int64 2147483648
   \<and> transitions [[0, 1], [0, 0]] ! 0 ! 1 = 1
   \<and> sqrt (real_of_int (wrap64 (total_n 2147483648 (sizes [0, 1]) ! 0
                               * total_n 2147483648 (sizes [0, 1]) ! 1))) = 0
   \<and> transitions_conf 2147483648 (sizes [0, 1]) (transitions [[0, 1], [0, 0]]) ! 0 ! 1 = PosInf"
proof -
  let ?M = "transitions [[0, 1], [0, 0]]"
  have cg: "cg_full [[0, 1/2], [0, 0]] [0, 1] [''a'', ''b''] None None = Inr [[0, 1], [0, 0]]"
    by (simp add: cg_full_def square_def cluster_graph_def edges_def masked_vgraph_def
        mask_cols_def mask_rows_def vgraph_def is_root_def is_final_def n_clusters_def)
  have s: "sizes [0, 1] = [1, 1]" by (simp add: sizes_def n_clusters_def)
  have t: "?M = [[0, 1], [- 1, 0]]" by (simp add: transitions_def)
  have r: "int64 2147483648" by (simp add: int64_def)
  have p: "wrap64 (total_n 2147483648 [1, 1] ! 0 * total_n 2147483648 [1, 1] ! 1) = 0"
    by (simp add: total_n_def wrap64_def)
  have i: "0 < length ?M" and j: "1 < length (?M ! 0)" by (simp_all add: t)
  have c: "transitions_conf 2147483648 [1, 1] ?M ! 0 ! 1 = PosInf"
    using transitions_conf_nth [OF i j, of 2147483648 "[1, 1]"]
    by (simp add: t conf_value_def total_n_def wrap64_def fsqrt_def fdiv_def)
  have a: "?M ! 0 ! 1 = 1" by (simp add: t)
  have q: "sqrt (real_of_int (wrap64 (total_n 2147483648 [1, 1] ! 0
      * total_n 2147483648 [1, 1] ! 1))) = 0"
    by (simp only: p) simp
  have l: "(1::int) \<le> 2147483648" by simp
  show ?thesis unfolding s using cg r a q c l by (simp only: simp_thms)
qed

text \<open>
  Claim C10 as amended: the claim holds wherever the neighbour count is a 64-bit integer
  and the product of the two expected totals is one too. For a coarse graph aggregated
  from a fine graph and a partition, and a neighbour count of at least 1: wherever
  \<open>Flow[i,j]\<close> is not zero both groups have a member and the divisor is strictly
  positive, so the entry of the confidence matrix is a finite non-negative number, also
  next to an empty group.
\<close>

theorem normalization_well_defined:
  assumes cg: "cg_full G clusters cats final_cells rootc = Inr cg"
    and n: "1 \<le> n" and n64: "int64 n" and i: "i < length cg" and j: "j < length cg"
    and range: "int64 ((n * int (sizes clusters ! i) * 2) * (n * int (sizes clusters ! j) * 2))"
  shows "(transitions cg ! i ! j \<noteq> 0 \<longrightarrow>
            0 < sizes clusters ! i \<and> 0 < sizes clusters ! j
            \<and> 0 < sqrt (real_of_int (wrap64 (total_n n (sizes clusters) ! i
                                             * total_n n (sizes clusters) ! j))))
       \<and> (\<exists>x. transitions_conf n (sizes clusters) (transitions cg) ! i ! j = Fin x \<and> 0 \<le> x)"
proof -
  let ?es = "edges (masked_vgraph G clusters cats final_cells rootc)"
  let ?ns = "sizes clusters"
  let ?v = "transitions cg ! i ! j"
  let ?p = "wrap64 (total_n n ?ns ! i * total_n n ?ns ! j)"
  have sq: "square (length clusters) G" using cg by (rule cg_full_InrD(1))
  have cg_eq: "cg = cluster_graph clusters ?es" using cg by (rule cg_full_InrD(3))
  have K: "length cg = n_clusters clusters" by (simp add: cg_eq length_cluster_graph)
  have iK: "i < n_clusters clusters" and jK: "j < n_clusters clusters" using i j K by simp_all
  have ins: "i < length ?ns" and jns: "j < length ?ns" using iK jK by (simp_all add: length_sizes)
  have in_range: "\<forall>(u, v) \<in> set ?es. u < length clusters \<and> v < length clusters"
    unfolding set_masked_edges [OF sq] by auto
  have flow: "?v = cg ! i ! j - cg ! j ! i" using i j by (rule transitions_nth)
  have tn: "?p = (n * int (?ns ! i) * 2) * (n * int (?ns ! j) * 2)"
    using ins jns range by (rule total_n_product)
  have pos: "0 < ?ns ! i \<and> 0 < ?ns ! j \<and> 0 < sqrt (real_of_int ?p)" if nz: "?v \<noteq> 0"
  proof -
    have "cg ! i ! j \<noteq> 0 \<or> cg ! j ! i \<noteq> 0" using nz flow by auto
    then have s: "0 < ?ns ! i \<and> 0 < ?ns ! j"
      using cluster_graph_nonzero [OF iK jK _ in_range] cluster_graph_nonzero [OF jK iK _ in_range]
      unfolding cg_eq by auto
    then have "0 < n * int (?ns ! i) * 2" "0 < n * int (?ns ! j) * 2" using n by simp_all
    then have "0 < ?p"
      unfolding tn by (rule mult_pos_pos)
    then have "0 < real_of_int ?p"
      by (simp only: of_int_0_less_iff)
    then have "0 < sqrt (real_of_int ?p)"
      by (simp only: real_sqrt_gt_0_iff)
    with s show ?thesis by (intro conjI) simp_all
  qed
  have iM: "i < length (transitions cg)" and jM: "j < length (transitions cg ! i)"
    using i j by (simp_all add: transitions_def)
  have entry: "transitions_conf n ?ns (transitions cg) ! i ! j =
      (if ?v = 0 then Fin 0 else if ?v < 0 then Fin 0
       else fdiv (real_of_int ?v)
              (sqrt (real_of_int (n * int (?ns ! i) * 2) * real_of_int (n * int (?ns ! j) * 2))))"
    by (simp only: transitions_conf_nth [OF iM jM] conf_value_eq [OF ins jns range])
  have "\<exists>x. transitions_conf n ?ns (transitions cg) ! i ! j = Fin x \<and> 0 \<le> x"
  proof (cases "0 < ?v")
    case True
    let ?r = "sqrt (real_of_int (n * int (?ns ! i) * 2) * real_of_int (n * int (?ns ! j) * 2))"
    have "0 < sqrt (real_of_int ?p)"
      using pos True by simp
    then have r: "0 < ?r" by (simp only: tn of_int_mult)
    from r have rne: "?r \<noteq> 0" by linarith
    have d: "fdiv (real_of_int ?v) ?r = Fin (real_of_int ?v / ?r)"
      by (simp only: fdiv_def rne not_False_eq_True if_True)
    have "0 \<le> real_of_int ?v" using True by simp
    then have q: "0 \<le> real_of_int ?v / ?r" using r by (rule divide_nonneg_pos)
    have "transitions_conf n ?ns (transitions cg) ! i ! j = Fin (real_of_int ?v / ?r)"
      using True entry d by simp
    with q show ?thesis by (intro exI conjI)
  next
    case False
    then have "transitions_conf n ?ns (transitions cg) ! i ! j = Fin 0" using entry by auto
    then show ?thesis by simp
  qed
  then show ?thesis using pos by simp
qed

theorem normalization_well_defined_witness:
  "cg_full [[0, 1/2, 0], [0, 0, 0], [0, 0, 0]] [0, 2, 2] [''a'', ''b'', ''c''] None None
     = Inr [[0, 0, 1], [0, 0, 0], [0, 0, 0]]
   \<and> sizes [0, 2, 2] = [1, 0, 2] \<and> int64 1
   \<and> int64 ((1 * int (sizes [0, 2, 2] ! 0) * 2) * (1 * int (sizes [0, 2, 2] ! 2) * 2))
   \<and> int64 ((1 * int (sizes [0, 2, 2] ! 0) * 2) * (1 * int (sizes [0, 2, 2] ! 1) * 2))
   \<and> 0 < sizes [0, 2, 2] ! 0 \<and> 0 < sizes [0, 2, 2] ! 2
   \<and> (\<exists>x. transitions_conf 1 (sizes [0, 2, 2]) (transitions [[0, 0, 1], [0, 0, 0], [0, 0, 0]]) ! 0 ! 2
          = Fin x \<and> 0 \<le> x)
   \<and> (\<exists>x. transitions_conf 1 (sizes [0, 2, 2]) (transitions [[0, 0, 1], [0, 0, 0], [0, 0, 0]]) ! 0 ! 1
          = Fin x \<and> 0 \<le> x)"
proof -
  let ?cg = "[[0, 0, 1], [0, 0, 0], [0, 0, 0::int]]"
  have cg: "cg_full [[0, 1/2, 0], [0, 0, 0], [0, 0, 0]] [0, 2, 2] [''a'', ''b'', ''c''] None None
      = Inr ?cg"
    by (simp add: cg_full_def square_def cluster_graph_def edges_def masked_vgraph_def
        mask_cols_def mask_rows_def vgraph_def is_root_def is_final_def n_clusters_def
        eval_nat_numeral)
  have n: "(1::int) \<le> 1" by simp
  have n64: "int64 1" by (simp add: int64_def)
  have i0: "0 < length ?cg" and i1: "1 < length ?cg" and i2: "2 < length ?cg" by simp_all
  have nz: "transitions ?cg ! 0 ! 2 \<noteq> 0" by (simp add: transitions_def)
  have s: "sizes [0, 2, 2] = [1, 0, 2]" by (simp add: sizes_def n_clusters_def eval_nat_numeral)
  have r02: "int64 ((1 * int (sizes [0, 2, 2] ! 0) * 2) * (1 * int (sizes [0, 2, 2] ! 2) * 2))"
    unfolding s by (simp add: int64_def)
  have r01: "int64 ((1 * int (sizes [0, 2, 2] ! 0) * 2) * (1 * int (sizes [0, 2, 2] ! 1) * 2))"
    unfolding s by (simp add: int64_def)
  note a = normalization_well_defined [OF cg n n64 i0 i2 r02]
  note b = normalization_well_defined [OF cg n n64 i0 i1 r01]
  have "0 < sizes [0, 2, 2] ! 0 \<and> 0 < sizes [0, 2, 2] ! 2"
    using a nz by simp
  moreover have "\<exists>x. transitions_conf 1 (sizes [0, 2, 2]) (transitions ?cg) ! 0 ! 2 = Fin x \<and> 0 \<le> x"
    using a by (rule conjunct2)
  moreover have "\<exists>x. transitions_conf 1 (sizes [0, 2, 2]) (transitions ?cg) ! 0 ! 1 = Fin x \<and> 0 \<le> x"
    using b by (rule conjunct2)
  ultimately show ?thesis using cg s n64 r02 r01 by (intro conjI) simp_all
qed

subsection \<open>Facts about one pruning step\<close>

lemma length_prune_row: "length (prune_row T i) = length T"
  by (simp add: prune_row_def)

lemma prune_row_other: "j \<noteq> i \<Longrightarrow> prune_row T i ! j = T ! j"
  by (simp add: prune_row_def)

lemma set_idx: "square K T \<Longrightarrow> i < K \<Longrightarrow> set (idx T i) = {j. j < K \<and> 0 < T ! i ! j}"
  by (auto simp: idx_def squareD)

lemma set_clipped: "set (clipped T i k) = (\<lambda>j. min (T ! j ! k) (T ! i ! j)) ` set (idx T i)"
  by (simp add: clipped_def)

lemma length_indirect: "length (indirect T i) = length (T ! i)"
  by (simp add: indirect_def)

lemma indirect_nth: "k < length (T ! i) \<Longrightarrow> indirect T i ! k = Max (set (clipped T i k))"
  by (simp add: indirect_def)

lemma prune_row_at:
  assumes "i < length T" "k < length (T ! i)"
  shows "prune_row T i ! i ! k =
     (if idx T i \<noteq> [] \<and> T ! i ! k < Max (set (clipped T i k)) then 0 else T ! i ! k)"
  using assms by (simp add: prune_row_def length_indirect indirect_nth)

lemma length_prune_row_row: "j < length T \<Longrightarrow> length (prune_row T i ! j) = length (T ! j)"
  by (cases "j = i") (simp_all add: prune_row_def length_indirect)

lemma square_prune_row: "square K T \<Longrightarrow> square K (prune_row T i)"
  unfolding square_def
  by (metis in_set_conv_nth length_prune_row length_prune_row_row)

lemma prune_row_entry:
  assumes "square K T" and "i < K" and "k < K"
  shows "prune_row T i ! i ! k =
           (if {j. j < K \<and> 0 < T ! i ! j} \<noteq> {} \<and>
               T ! i ! k < Max ((\<lambda>j. min (T ! j ! k) (T ! i ! j)) ` {j. j < K \<and> 0 < T ! i ! j})
            then 0 else T ! i ! k)"
proof -
  have J: "set (idx T i) = {j. j < K \<and> 0 < T ! i ! j}"
    using assms by (simp add: set_idx)
  have e: "idx T i \<noteq> [] \<longleftrightarrow> {j. j < K \<and> 0 < T ! i ! j} \<noteq> {}"
    using J by (metis set_empty)
  have "prune_row T i ! i ! k =
     (if idx T i \<noteq> [] \<and> T ! i ! k < Max (set (clipped T i k)) then 0 else T ! i ! k)"
    using assms by (intro prune_row_at) (simp_all add: squareD)
  then show ?thesis
    unfolding set_clipped J e by simp
qed

subsection \<open>Facts about the pruning loop\<close>

lemma length_foldl_prune_row: "length (foldl prune_row T xs) = length T"
  by (induction xs arbitrary: T) (simp_all add: length_prune_row)

lemma square_foldl_prune_row: "square K T \<Longrightarrow> square K (foldl prune_row T xs)"
  by (induction xs arbitrary: T) (simp_all add: square_prune_row)

lemma foldl_prune_row_other: "j \<notin> set xs \<Longrightarrow> foldl prune_row T xs ! j = T ! j"
  by (induction xs arbitrary: T) (simp_all add: prune_row_other)

lemma prune_split:
  assumes "i \<le> length T"
  shows "prune T = foldl prune_row (foldl prune_row T [0..<i]) [i..<length T]"
proof -
  have "[0..<length T] = [0..<i] @ [i..<length T]"
    using assms by (metis le_add_diff_inverse upt_add_eq_append zero_le)
  then show ?thesis by (simp add: prune_def)
qed

lemma partial_eq:
  assumes "i \<le> length T"
  shows "foldl prune_row T [0..<i] = take i (prune T) @ drop i T"
proof (rule nth_equalityI)
  show "length (foldl prune_row T [0..<i]) = length (take i (prune T) @ drop i T)"
    using assms by (simp add: length_foldl_prune_row prune_def)
next
  fix j assume "j < length (foldl prune_row T [0..<i])"
  then have j: "j < length T" by (simp add: length_foldl_prune_row)
  have len: "length (prune T) = length T" by (simp add: prune_def length_foldl_prune_row)
  show "foldl prune_row T [0..<i] ! j = (take i (prune T) @ drop i T) ! j"
  proof (cases "j < i")
    case True
    then have "prune T ! j = foldl prune_row T [0..<i] ! j"
      by (subst prune_split [OF assms]) (simp add: foldl_prune_row_other)
    with True assms len show ?thesis by (simp add: nth_append)
  next
    case False
    then have "foldl prune_row T [0..<i] ! j = T ! j"
      by (simp add: foldl_prune_row_other)
    with False assms len j show ?thesis by (simp add: nth_append)
  qed
qed

lemma prune_row_i:
  assumes "i < length T"
  shows "prune T ! i = prune_row (foldl prune_row T [0..<i]) i ! i"
proof -
  have "[i..<length T] = i # [Suc i..<length T]"
    using assms by (simp add: upt_conv_Cons)
  then have "prune T = foldl prune_row (prune_row (foldl prune_row T [0..<i]) i) [Suc i..<length T]"
    using prune_split [of i T] assms by simp
  then show ?thesis by (simp add: foldl_prune_row_other)
qed

text \<open>
  Claim C2 (order-independence of pruning) does not hold for the loop: row 1 reads row 0
  after row 0 has been pruned. In the matrix below the edge (0,2) is dominated through
  group 3 and removed first; the edge (1,2), which the entry matrix dominates through
  (1,0) and (0,2), therefore survives in the loop and is removed under the read-only
  semantics.
\<close>

theorem prune_order_counterexample:
  "prune [[0, 0, 3/10, 5/10], [4/10, 0, 2/10, 0], [0, 0, 0, 0], [0, 0, 5/10, 0]]
     = [[0, 0, 0, 5/10], [4/10, 0, 2/10, 0], [0, 0, 0, 0], [0, 0, 5/10, 0]]
   \<and> prune_readonly [[0, 0, 3/10, 5/10], [4/10, 0, 2/10, 0], [0, 0, 0, 0], [0, 0, 5/10, 0]]
     = [[0, 0, 0, 5/10], [4/10, 0, 0, 0], [0, 0, 0, 0], [0, 0, 5/10, 0]]
   \<and> prune [[0, 0, 3/10, 5/10], [4/10, 0, 2/10, 0], [0, 0, 0, 0], [0, 0, 5/10, 0]]
     \<noteq> prune_readonly [[0, 0, 3/10, 5/10], [4/10, 0, 2/10, 0], [0, 0, 0, 0], [0, 0, 5/10, 0]]"
proof -
  let ?T = "[[0, 0, 3/10, 5/10], [4/10, 0, 2/10, 0], [0, 0, 0, 0], [0, 0, 5/10, 0::real]]"
  have s: "prune ?T = [[0, 0, 0, 5/10], [4/10, 0, 2/10, 0], [0, 0, 0, 0], [0, 0, 5/10, 0]]"
    by (simp add: prune_def prune_row_def idx_def indirect_def clipped_def)
  have r: "prune_readonly ?T = [[0, 0, 0, 5/10], [4/10, 0, 0, 0], [0, 0, 0, 0], [0, 0, 5/10, 0]]"
    by (simp add: prune_readonly_def prune_row_def idx_def indirect_def clipped_def)
  show ?thesis unfolding s r by simp
qed

text \<open>
  Claim C2 as amended: the loop decides row \<open>i\<close> on the matrix whose rows before \<open>i\<close> are
  already pruned and whose rows from \<open>i\<close> on are as at entry to the stage.
\<close>

theorem prune_sequential:
  assumes "i < length T"
  shows "prune T ! i = prune_row (take i (prune T) @ drop i T) i ! i"
  using prune_row_i [OF assms] partial_eq [of i T] assms by simp

theorem prune_sequential_witness:
  "(1::nat) < length [[0, 0, 3/10, 5/10], [4/10, 0, 2/10, 0], [0, 0, 0, 0], [0, 0, 5/10, 0::real]]
   \<and> prune [[0, 0, 3/10, 5/10], [4/10, 0, 2/10, 0], [0, 0, 0, 0], [0, 0, 5/10, 0]] ! 1
     = prune_row ([[0, 0, 0, 5/10]] @ [[4/10, 0, 2/10, 0], [0, 0, 0, 0], [0, 0, 5/10, 0]]) 1 ! 1"
proof -
  let ?T = "[[0, 0, 3/10, 5/10], [4/10, 0, 2/10, 0], [0, 0, 0, 0], [0, 0, 5/10, 0::real]]"
  have p: "prune ?T = [[0, 0, 0, 5/10], [4/10, 0, 2/10, 0], [0, 0, 0, 0], [0, 0, 5/10, 0]]"
    by (simp add: prune_def prune_row_def idx_def indirect_def clipped_def)
  have l: "(1::nat) < length ?T" by simp
  show ?thesis using prune_sequential [OF l] unfolding p by simp
qed

text \<open>
  Claim C3 (domination pruning rule) does not hold when \<open>T\<close> is the confidence matrix as
  it enters the pruning stage. In the matrix below row 1 has \<open>J = {0, 2}\<close>, and the bound
  for the target 2 taken on the entry matrix is \<open>max(min(0.3, 0.4), min(0, 0.2)) = 0.3\<close>,
  above the entry 0.2 at (1,2); yet the loop keeps that entry, because row 0 has lost
  its entry at (0,2) before row 1 is processed.
\<close>

theorem prune_rule_counterexample:
  "idx [[0, 0, 3/10, 5/10], [4/10, 0, 2/10, 0], [0, 0, 0, 0], [0, 0, 5/10, 0]] 1 = [0, 2]
   \<and> indirect [[0, 0, 3/10, 5/10], [4/10, 0, 2/10, 0], [0, 0, 0, 0], [0, 0, 5/10, 0]] 1 ! 2 = 3/10
   \<and> [[0, 0, 3/10, 5/10], [4/10, 0, 2/10, 0], [0, 0, 0, 0], [0, 0, 5/10, 0::real]] ! 1 ! 2 < 3/10
   \<and> prune [[0, 0, 3/10, 5/10], [4/10, 0, 2/10, 0], [0, 0, 0, 0], [0, 0, 5/10, 0]] ! 1 ! 2 = 2/10"
proof -
  let ?T = "[[0, 0, 3/10, 5/10], [4/10, 0, 2/10, 0], [0, 0, 0, 0], [0, 0, 5/10, 0::real]]"
  have a: "idx ?T 1 = [0, 2]" by (simp add: idx_def)
  have b: "indirect ?T 1 ! 2 = 3/10" by (simp add: indirect_def clipped_def idx_def)
  have c: "?T ! 1 ! 2 < 3/10" by simp
  have d: "prune ?T ! 1 ! 2 = 2/10"
    by (simp add: prune_def prune_row_def idx_def indirect_def clipped_def)
  show ?thesis using a b c d by (intro conjI)
qed

text \<open>
  Claim C3 as amended: the rule holds with the other rows read from the working matrix
  \<open>W\<close> of the loop, whose rows before \<open>i\<close> are already pruned and whose rows from \<open>i\<close> on
  are those of the \<open>K\<close> by \<open>K\<close> matrix \<open>T\<close> that entered the stage. With \<open>J\<close> the set of
  columns \<open>j\<close> where \<open>T[i,j] > 0\<close>: the entry \<open>T[i,k]\<close> becomes 0 exactly when \<open>J\<close> is not
  empty and \<open>T[i,k]\<close> is below the maximum over \<open>j\<close> in \<open>J\<close> of \<open>min(W[j,k], T[i,j])\<close>, and
  keeps its value otherwise; and the bound that \<open>j\<close> contributes to its own column never
  exceeds \<open>T[i,j]\<close>.
\<close>

theorem prune_rule:
  assumes sq: "square K T" and i: "i < K" and k: "k < K"
    and W: "W = take i (prune T) @ drop i T"
  shows "W ! i = T ! i
       \<and> prune T ! i ! k =
           (if {j. j < K \<and> 0 < T ! i ! j} \<noteq> {} \<and>
               T ! i ! k < Max ((\<lambda>j. min (W ! j ! k) (T ! i ! j)) ` {j. j < K \<and> 0 < T ! i ! j})
            then 0 else T ! i ! k)
       \<and> (\<forall>j \<in> {j. j < K \<and> 0 < T ! i ! j}. min (W ! j ! j) (T ! i ! j) \<le> T ! i ! j)"
proof -
  have len: "length T = K" using sq by (simp add: squareD)
  have iT: "i < length T" and le: "i \<le> length T" using i len by simp_all
  have Wf: "W = foldl prune_row T [0..<i]"
    unfolding W by (rule partial_eq [OF le, symmetric])
  have sqW: "square K W" unfolding Wf using sq by (rule square_foldl_prune_row)
  have row: "W ! i = T ! i" unfolding Wf by (simp add: foldl_prune_row_other)
  have "prune T ! i ! k = prune_row W i ! i ! k"
    unfolding Wf by (simp only: prune_row_i [OF iT])
  also have "\<dots> = (if {j. j < K \<and> 0 < W ! i ! j} \<noteq> {} \<and>
               W ! i ! k < Max ((\<lambda>j. min (W ! j ! k) (W ! i ! j)) ` {j. j < K \<and> 0 < W ! i ! j})
            then 0 else W ! i ! k)"
    using sqW i k by (rule prune_row_entry)
  finally have "prune T ! i ! k =
           (if {j. j < K \<and> 0 < T ! i ! j} \<noteq> {} \<and>
               T ! i ! k < Max ((\<lambda>j. min (W ! j ! k) (T ! i ! j)) ` {j. j < K \<and> 0 < T ! i ! j})
            then 0 else T ! i ! k)"
    by (simp only: row)
  then show ?thesis using row by simp
qed

text \<open>
  The example of the specification: the edge (0,2) of weight 0.05 is removed, the edge
  (0,1) of weight 0.2 stays.
\<close>

theorem prune_rule_witness:
  "square 3 [[0::real, 2/10, 5/100], [0, 0, 3/10], [0, 0, 0]] \<and>
   prune [[0, 2/10, 5/100], [0, 0, 3/10], [0, 0, 0]] ! 0 ! 2 = 0 \<and>
   prune [[0, 2/10, 5/100], [0, 0, 3/10], [0, 0, 0]] ! 0 ! 1 = 2/10"
proof -
  let ?T = "[[0, 2/10, 5/100], [0, 0, 3/10], [0, 0, 0::real]]"
  have sq: "square 3 ?T" by (simp add: square_def)
  have W: "?T = take 0 (prune ?T) @ drop 0 ?T" by simp
  have J: "{j. j < 3 \<and> 0 < ?T ! 0 ! j} = {1, 2::nat}"
    by (auto simp: less_Suc_eq numeral_3_eq_3 nth_Cons')
  have i: "(0::nat) < 3" and k1: "(1::nat) < 3" and k2: "(2::nat) < 3" by simp_all
  show ?thesis
    using sq prune_rule [OF sq i k2 W] prune_rule [OF sq i k1 W]
    unfolding J by (simp add: nth_Cons')
qed

lemma length_prune: "length (prune T) = length T"
  by (simp add: prune_def length_foldl_prune_row)

lemma square_prune: "square K T \<Longrightarrow> square K (prune T)"
  by (simp add: prune_def square_foldl_prune_row)

lemma partial_row: "i < length T \<Longrightarrow> foldl prune_row T [0..<i] ! i = T ! i"
  by (simp add: foldl_prune_row_other)

lemma prune_entry:
  assumes "square K T" "i < K" "k < K"
  shows "prune T ! i ! k = T ! i ! k \<or> prune T ! i ! k = 0"
proof -
  let ?P = "foldl prune_row T [0..<i]"
  have i: "i < length T" using assms by (simp add: squareD)
  have P: "square K ?P" using assms by (simp add: square_foldl_prune_row)
  have "prune_row ?P i ! i ! k = ?P ! i ! k \<or> prune_row ?P i ! i ! k = 0"
    using P assms by (simp add: prune_row_at squareD)
  then show ?thesis
    using prune_row_i [OF i] partial_row [OF i] by simp
qed

lemma nonnegD: "nonneg T \<Longrightarrow> i < length T \<Longrightarrow> k < length (T ! i) \<Longrightarrow> 0 \<le> T ! i ! k"
  unfolding nonneg_def by (meson nth_mem)

text \<open>
  Claim C5 (pruning monotonicity). On a non-negative \<open>K\<close> by \<open>K\<close> confidence matrix no entry
  of the pruned matrix exceeds the entry it comes from; each entry is unchanged or
  exactly 0, so the support of the pruned matrix lies within the original support, and
  the shape is kept.
\<close>

theorem prune_monotone:
  assumes "square K T" and "nonneg T" and "i < K" and "j < K"
  shows "prune T ! i ! j \<le> T ! i ! j
       \<and> (prune T ! i ! j = T ! i ! j \<or> prune T ! i ! j = 0)
       \<and> (prune T ! i ! j \<noteq> 0 \<longrightarrow> T ! i ! j \<noteq> 0)
       \<and> square K (prune T)"
proof -
  have "0 \<le> T ! i ! j" using assms by (simp add: nonnegD squareD)
  moreover have "prune T ! i ! j = T ! i ! j \<or> prune T ! i ! j = 0"
    using assms by (simp add: prune_entry)
  ultimately show ?thesis using assms(1) by (auto simp: square_prune)
qed

theorem prune_monotone_witness:
  "square 3 [[0::real, 2/10, 5/100], [0, 0, 3/10], [0, 0, 0]]
   \<and> nonneg [[0, 2/10, 5/100], [0, 0, 3/10], [0, 0, 0]]
   \<and> prune [[0, 2/10, 5/100], [0, 0, 3/10], [0, 0, 0]] ! 0 ! 2 \<le> 5/100
   \<and> prune [[0, 2/10, 5/100], [0, 0, 3/10], [0, 0, 0]] ! 0 ! 1 \<le> 2/10"
proof -
  let ?T = "[[0, 2/10, 5/100], [0, 0, 3/10], [0, 0, 0::real]]"
  have sq: "square 3 ?T" by (simp add: square_def)
  have nn: "nonneg ?T" by (simp add: nonneg_def)
  show ?thesis
    using sq nn prune_monotone [OF sq nn, of 0 2] prune_monotone [OF sq nn, of 0 1]
    by simp
qed

lemma nonnegI: "(\<And>i k. i < length T \<Longrightarrow> k < length (T ! i) \<Longrightarrow> 0 \<le> T ! i ! k) \<Longrightarrow> nonneg T"
  unfolding nonneg_def by (metis in_set_conv_nth)

lemma nonneg_prune:
  assumes "square K T" "nonneg T"
  shows "nonneg (prune T)"
proof (rule nonnegI)
  fix i k assume "i < length (prune T)" "k < length (prune T ! i)"
  then have ik: "i < K" "k < K"
    using square_prune [OF assms(1)] by (simp_all add: squareD)
  then have "0 \<le> T ! i ! k" using assms by (simp add: nonnegD squareD)
  then show "0 \<le> prune T ! i ! k"
    using prune_entry [OF assms(1) ik] by auto
qed

lemma prune_le_partial:
  assumes sq: "square K T" and nn: "nonneg T" and n: "n \<le> K" and j: "j < K" and k: "k < K"
  shows "prune T ! j ! k \<le> foldl prune_row T [0..<n] ! j ! k"
proof (cases "j < n")
  case True
  have "n \<le> length T" using sq n by (simp add: squareD)
  then have "prune T ! j = foldl prune_row T [0..<n] ! j"
    using True by (subst prune_split [of n T]) (simp_all add: foldl_prune_row_other)
  then show ?thesis by simp
next
  case False
  then have "foldl prune_row T [0..<n] ! j = T ! j"
    by (simp add: foldl_prune_row_other)
  moreover have "0 \<le> T ! j ! k" using sq nn j k by (simp add: nonnegD squareD)
  ultimately show ?thesis using prune_entry [OF sq j k] by auto
qed

lemma prune_row_fixed:
  assumes sq: "square K T" and nn: "nonneg T" and n: "n < K"
  shows "prune_row (prune T) n = prune T"
proof (cases "idx (prune T) n = []")
  case True
  then show ?thesis by (simp add: prune_row_def)
next
  case False
  let ?T' = "prune T"
  let ?P = "foldl prune_row T [0..<n]"
  have sq': "square K ?T'" using sq by (rule square_prune)
  have sqP: "square K ?P" using sq by (rule square_foldl_prune_row)
  have nT: "n < length T" using sq n by (simp add: squareD)
  have row: "?T' ! n = prune_row ?P n ! n" using nT by (rule prune_row_i)
  have le: "\<And>j k. j < K \<Longrightarrow> k < K \<Longrightarrow> ?T' ! j ! k \<le> ?P ! j ! k"
    using sq nn n by (simp add: prune_le_partial)
  have zero: "?T' ! n ! k = 0"
    if k: "k < K" and lt: "?T' ! n ! k < Max (set (clipped ?T' n k))" for k
  proof -
    have ne: "set (clipped ?T' n k) \<noteq> {}" using False by (simp add: clipped_def)
    have "Max (set (clipped ?T' n k)) \<in> set (clipped ?T' n k)"
      using ne by (intro Max_in) simp_all
    then obtain j where j: "j \<in> set (idx ?T' n)"
      and m: "Max (set (clipped ?T' n k)) = min (?T' ! j ! k) (?T' ! n ! j)"
      by (auto simp: set_clipped)
    from j have jK: "j < K" and pos: "0 < ?T' ! n ! j"
      using set_idx [OF sq' n] by auto
    have "0 < ?P ! n ! j" using pos le [OF n jK] by linarith
    then have jP: "j \<in> set (idx ?P n)" using set_idx [OF sqP n] jK by simp
    then have neP: "idx ?P n \<noteq> []" by auto
    have "min (?P ! j ! k) (?P ! n ! j) \<in> set (clipped ?P n k)"
      using jP by (auto simp: set_clipped)
    then have geP: "min (?P ! j ! k) (?P ! n ! j) \<le> Max (set (clipped ?P n k))"
      by (intro Max_ge) simp_all
    have mono: "min (?T' ! j ! k) (?T' ! n ! j) \<le> min (?P ! j ! k) (?P ! n ! j)"
      using le [OF jK k] le [OF n jK] by (simp add: min_def)
    have at: "?T' ! n ! k =
        (if idx ?P n \<noteq> [] \<and> ?P ! n ! k < Max (set (clipped ?P n k)) then 0 else ?P ! n ! k)"
      unfolding row using sqP n k by (simp add: prune_row_at squareD)
    show ?thesis
    proof (cases "?P ! n ! k < Max (set (clipped ?P n k))")
      case True
      then show ?thesis using at neP by simp
    next
      case F: False
      then have "?T' ! n ! k = ?P ! n ! k" using at by simp
      then have False using F lt m mono geP by linarith
      then show ?thesis ..
    qed
  qed
  have "map2 (\<lambda>x m. if x < m then 0 else x) (?T' ! n) (indirect ?T' n) = ?T' ! n"
  proof (rule nth_equalityI)
    show "length (map2 (\<lambda>x m. if x < m then 0 else x) (?T' ! n) (indirect ?T' n)) = length (?T' ! n)"
      by (simp add: length_indirect)
  next
    fix k assume "k < length (map2 (\<lambda>x m. if x < m then 0 else x) (?T' ! n) (indirect ?T' n))"
    then have k: "k < K" using sq' n by (simp add: length_indirect squareD)
    then have kl: "k < length (?T' ! n)" using sq' n by (simp add: squareD)
    show "map2 (\<lambda>x m. if x < m then 0 else x) (?T' ! n) (indirect ?T' n) ! k = ?T' ! n ! k"
      using kl zero [OF k] by (simp add: length_indirect indirect_nth)
  qed
  then show ?thesis using False by (simp add: prune_row_def)
qed

lemma foldl_prune_row_fixed:
  assumes "square K T" "nonneg T" "\<forall>n \<in> set xs. n < K"
  shows "foldl prune_row (prune T) xs = prune T"
  using assms(3) by (induction xs) (simp_all add: prune_row_fixed [OF assms(1,2)])

text \<open>
  Claim C4 (idempotence of pruning). On a non-negative \<open>K\<close> by \<open>K\<close> confidence matrix a
  second pruning pass over the output of the first changes nothing.
\<close>

theorem prune_idempotent:
  assumes "square K T" and "nonneg T"
  shows "prune (prune T) = prune T"
proof -
  have "length (prune T) = K" using assms(1) by (simp add: length_prune squareD)
  then have "prune (prune T) = foldl prune_row (prune T) [0..<K]" by (simp add: prune_def)
  also have "\<dots> = prune T" by (rule foldl_prune_row_fixed [OF assms]) simp
  finally show ?thesis .
qed

theorem prune_idempotent_witness:
  "square 4 [[0::real, 0, 3/10, 5/10], [4/10, 0, 2/10, 0], [0, 0, 0, 0], [0, 0, 5/10, 0]]
   \<and> nonneg [[0, 0, 3/10, 5/10], [4/10, 0, 2/10, 0], [0, 0, 0, 0], [0, 0, 5/10, 0]]
   \<and> prune (prune [[0, 0, 3/10, 5/10], [4/10, 0, 2/10, 0], [0, 0, 0, 0], [0, 0, 5/10, 0]])
     = [[0, 0, 0, 5/10], [4/10, 0, 2/10, 0], [0, 0, 0, 0], [0, 0, 5/10, 0]]"
proof -
  let ?T = "[[0, 0, 3/10, 5/10], [4/10, 0, 2/10, 0], [0, 0, 0, 0], [0, 0, 5/10, 0::real]]"
  have sq: "square 4 ?T" by (simp add: square_def)
  have nn: "nonneg ?T" by (simp add: nonneg_def)
  have p: "prune ?T = [[0, 0, 0, 5/10], [4/10, 0, 2/10, 0], [0, 0, 0, 0], [0, 0, 5/10, 0]]"
    by (simp add: prune_def prune_row_def idx_def indirect_def clipped_def)
  show ?thesis using sq nn prune_idempotent [OF sq nn] unfolding p by simp
qed

subsection \<open>Facts about the threshold\<close>

lemma mask_pos: "0 < x \<Longrightarrow> over_positive x = Fin x"
  and mask_zero: "over_positive 0 = NaN"
  and mask_neg: "x < 0 \<Longrightarrow> over_positive x = NegInf"
  by (simp_all add: fdiv_def over_positive_def)

lemma mask_cases: "\<not> 0 < x \<Longrightarrow> over_positive x = NaN \<or> over_positive x = NegInf"
  by (simp add: fdiv_def over_positive_def)

lemma foldl_fmax_Fin:
  "foldl fmax (Fin m) (map over_positive ys) = Fin (fold max (filter (\<lambda>x. 0 < x) ys) m)"
proof (induction ys arbitrary: m)
  case Nil
  show ?case by simp
next
  case (Cons y ys)
  show ?case
  proof (cases "0 < y")
    case True
    then have "fmax (Fin m) (over_positive y) = Fin (max m y)"
      by (simp add: mask_pos max_def)
    then show ?thesis using True Cons.IH [of "max m y"] by (simp add: max.commute)
  next
    case False
    then have "fmax (Fin m) (over_positive y) = Fin m"
      using mask_cases [OF False] by auto
    then show ?thesis using False Cons.IH [of m] by simp
  qed
qed

lemma foldl_fmax_low:
  assumes "a = NaN \<or> a = NegInf" and "filter (\<lambda>x. 0 < x) ys \<noteq> []"
  shows "foldl fmax a (map over_positive ys) = Fin (Max (set (filter (\<lambda>x. 0 < x) ys)))"
  using assms
proof (induction ys arbitrary: a)
  case Nil
  then show ?case by simp
next
  case (Cons y ys)
  show ?case
  proof (cases "0 < y")
    case True
    then have "fmax a (over_positive y) = Fin y"
      using Cons.prems(1) by (auto simp: mask_pos)
    then have "foldl fmax a (map over_positive (y # ys)) = Fin (fold max (filter (\<lambda>x. 0 < x) ys) y)"
      by (simp add: foldl_fmax_Fin)
    also have "\<dots> = Fin (Max (set (y # filter (\<lambda>x. 0 < x) ys)))"
      by (simp only: Max.set_eq_fold)
    finally show ?thesis using True by simp
  next
    case False
    then have "fmax a (over_positive y) = NaN \<or> fmax a (over_positive y) = NegInf"
      using Cons.prems(1) mask_cases [OF False] by auto
    moreover have "filter (\<lambda>x. 0 < x) ys \<noteq> []" using Cons.prems(2) False by simp
    ultimately have "foldl fmax (fmax a (over_positive y)) (map over_positive ys)
        = Fin (Max (set (filter (\<lambda>x. 0 < x) ys)))"
      by (rule Cons.IH)
    then show ?thesis using False by simp
  qed
qed

lemma foldl_fmax_none:
  assumes "a = NaN \<or> a = NegInf" and "filter (\<lambda>x. 0 < x) ys = []"
  shows "foldl fmax a (map over_positive ys) = NaN \<or> foldl fmax a (map over_positive ys) = NegInf"
  using assms
proof (induction ys arbitrary: a)
  case Nil
  then show ?case by simp
next
  case (Cons y ys)
  have ny: "\<not> 0 < y" using Cons.prems(2) by (auto split: if_splits)
  then have "fmax a (over_positive y) = NaN \<or> fmax a (over_positive y) = NegInf"
    using Cons.prems(1) mask_cases [OF ny] by auto
  moreover have "filter (\<lambda>x. 0 < x) ys = []" using Cons.prems(2) ny by simp
  ultimately show ?case using Cons.IH [of "fmax a (over_positive y)"] by simp
qed

lemma foldl_fmax_zero:
  assumes "\<forall>y \<in> set ys. y = 0"
  shows "foldl fmax NaN (map over_positive ys) = NaN"
  using assms by (induction ys) (simp_all add: mask_zero)

lemma masked_column_map: "masked_column T k = map over_positive (map (\<lambda>r. r ! k) T)"
  by (simp add: masked_column_def comp_def)

lemma nanmax_masked:
  assumes "T \<noteq> []"
  shows "nanmax (masked_column T k) = Inr (foldl fmax NaN (map over_positive (map (\<lambda>r. r ! k) T)))"
  using assms by (cases T) (simp_all add: nanmax_def masked_column_def comp_def)

lemma nanmax_column_pos:
  assumes "r \<in> set T" and "0 < r ! k"
  shows "nanmax (masked_column T k) = Inr (Fin (ColMax T k))"
proof -
  have ne: "T \<noteq> []" using assms(1) by auto
  have "r ! k \<in> set (filter (\<lambda>x. 0 < x) (map (\<lambda>r. r ! k) T))"
    using assms by auto
  then have "filter (\<lambda>x. 0 < x) (map (\<lambda>r. r ! k) T) \<noteq> []"
    by (metis empty_iff empty_set)
  then have "foldl fmax NaN (map over_positive (map (\<lambda>r. r ! k) T)) = Fin (ColMax T k)"
    unfolding ColMax_def by (intro foldl_fmax_low) simp_all
  then show ?thesis by (simp only: nanmax_masked [OF ne])
qed

lemma ColMax_attained:
  assumes "r \<in> set T" and "0 < r ! k"
  shows "\<exists>r' \<in> set T. r' ! k = ColMax T k \<and> 0 < r' ! k"
proof -
  let ?S = "set (filter (\<lambda>x. 0 < x) (map (\<lambda>r. r ! k) T))"
  have "r ! k \<in> ?S" using assms by auto
  then have "?S \<noteq> {}" by (metis empty_iff)
  then have "Max ?S \<in> ?S" by (intro Max_in) simp_all
  then show ?thesis unfolding ColMax_def by auto
qed

lemma nanmax_column_none:
  assumes "T \<noteq> []" and "\<forall>r \<in> set T. \<not> 0 < r ! k"
  shows "nanmax (masked_column T k) = Inr NaN \<or> nanmax (masked_column T k) = Inr NegInf"
proof -
  have "filter (\<lambda>x. 0 < x) (map (\<lambda>r. r ! k) T) = []"
    using assms(2) by (auto simp: filter_empty_conv)
  then have "foldl fmax NaN (map over_positive (map (\<lambda>r. r ! k) T)) = NaN
     \<or> foldl fmax NaN (map over_positive (map (\<lambda>r. r ! k) T)) = NegInf"
    by (intro foldl_fmax_none) simp_all
  then show ?thesis by (simp only: nanmax_masked [OF assms(1)]) simp
qed

lemma nanmax_column_zero:
  assumes "T \<noteq> []" and "\<forall>r \<in> set T. r ! k = 0"
  shows "nanmax (masked_column T k) = Inr NaN"
proof -
  have "foldl fmax NaN (map over_positive (map (\<lambda>r. r ! k) T)) = NaN"
    using assms(2) by (intro foldl_fmax_zero) simp
  then show ?thesis by (simp only: nanmax_masked [OF assms(1)])
qed

lemma collect_Inr: "collect (map (\<lambda>k. Inr (f k)) ks) = Inr (map f ks)"
  by (induction ks) simp_all

lemma foldl_fmin_Fin: "foldl fmin (Fin a) (map Fin bs) = Fin (fold min bs a)"
  by (induction bs arbitrary: a) (simp_all add: min_def)

lemma nanmin_Fin:
  assumes "bs \<noteq> []"
  shows "nanmin (map Fin bs) = Inr (Fin (Min (set bs)))"
proof -
  obtain b bs' where b: "bs = b # bs'" using assms by (cases bs) auto
  have "nanmin (map Fin bs) = Inr (Fin (fold min bs' b))"
    by (simp add: b nanmin_def foldl_fmin_Fin)
  also have "fold min bs' b = Min (set bs)"
    unfolding b by (simp only: Min.set_eq_fold)
  finally show ?thesis .
qed

lemma fmin_low:
  "a = NaN \<or> a = NegInf \<Longrightarrow> x = NaN \<or> x = NegInf \<Longrightarrow> fmin a x = NaN \<or> fmin a x = NegInf"
  by auto

lemma foldl_fmin_low:
  assumes "a = NaN \<or> a = NegInf" and "\<forall>x \<in> set xs. x = NaN \<or> x = NegInf"
  shows "foldl fmin a xs = NaN \<or> foldl fmin a xs = NegInf"
  using assms
proof (induction xs arbitrary: a)
  case Nil
  then show ?case by simp
next
  case (Cons x xs)
  have "fmin a x = NaN \<or> fmin a x = NegInf"
    using Cons.prems by (intro fmin_low) simp_all
  then have "foldl fmin (fmin a x) xs = NaN \<or> foldl fmin (fmin a x) xs = NegInf"
    using Cons.prems(2) by (intro Cons.IH) simp_all
  then show ?case by simp
qed

lemma foldl_fmin_NaN:
  assumes "\<forall>x \<in> set xs. x = NaN"
  shows "foldl fmin NaN xs = NaN"
  using assms by (induction xs) auto

lemma set_columns: "set (columns cats rootc) = {k. k < length cats \<and> Some (cats ! k) \<noteq> rootc}"
  by (auto simp: columns_def)

lemma threshold_unfold:
  assumes "square (length cats) T" and "rootc = None \<or> rootc \<in> Some ` set cats"
  shows "threshold cats rootc T =
     (case collect (map (\<lambda>k. nanmax (masked_column T k)) (columns cats rootc)) of
        Inl e \<Rightarrow> Inl e
      | Inr ms \<Rightarrow> (case nanmin ms of
                     Inl e \<Rightarrow> Inl e
                   | Inr m \<Rightarrow> Inr (fsub m (1 / 1000000))))"
  using assms by (auto simp: threshold_def)

text \<open>
  Claim C1 (threshold connectivity guarantee). When every non-root column of the matrix
  has a strictly positive entry, the threshold is the minimum over the non-root columns
  of the maximum positive entry of the column, minus 1e-6, and every non-root column \<open>k\<close>
  keeps a positive entry that is not strictly below the threshold.
\<close>

theorem threshold_connectivity:
  assumes sq: "square (length cats) T"
    and rt: "rootc = None \<or> rootc \<in> Some ` set cats"
    and pos: "\<forall>k \<in> set (columns cats rootc). \<exists>i < length cats. 0 < T ! i ! k"
    and k: "k \<in> set (columns cats rootc)"
  shows "threshold cats rootc T
           = Inr (Fin (Min (set (map (ColMax T) (columns cats rootc))) - 1 / 1000000))
       \<and> (\<exists>i < length cats. 0 < T ! i ! k
             \<and> \<not> T ! i ! k < Min (set (map (ColMax T) (columns cats rootc))) - 1 / 1000000)"
proof -
  let ?cols = "columns cats rootc"
  let ?m = "Min (set (map (ColMax T) ?cols))"
  have len: "length T = length cats" using sq by (simp add: squareD)
  have col: "nanmax (masked_column T k') = Inr (Fin (ColMax T k'))" if "k' \<in> set ?cols" for k'
  proof -
    from pos that have "\<exists>i<length cats. 0 < T ! i ! k'" by (rule bspec)
    then obtain i where i: "i < length cats" "0 < T ! i ! k'" by (elim exE conjE)
    have "T ! i \<in> set T" using i(1) len by simp
    then show ?thesis using i(2) by (rule nanmax_column_pos)
  qed
  have "map (\<lambda>k. nanmax (masked_column T k)) ?cols = map (\<lambda>k. Inr (Fin (ColMax T k))) ?cols"
    using col by simp
  then have "collect (map (\<lambda>k. nanmax (masked_column T k)) ?cols)
      = Inr (map (\<lambda>k. Fin (ColMax T k)) ?cols)"
    by (simp only: collect_Inr)
  moreover have "map (\<lambda>k. Fin (ColMax T k)) ?cols = map Fin (map (ColMax T) ?cols)"
    by (simp add: comp_def)
  ultimately have c: "collect (map (\<lambda>k. nanmax (masked_column T k)) ?cols)
      = Inr (map Fin (map (ColMax T) ?cols))"
    by (simp only:)
  have ne: "map (ColMax T) ?cols \<noteq> []" using k by auto
  have t: "threshold cats rootc T = Inr (Fin (?m - 1 / 1000000))"
  proof -
    have "threshold cats rootc T =
        (case nanmin (map Fin (map (ColMax T) ?cols)) of
           Inl e \<Rightarrow> Inl e | Inr m \<Rightarrow> Inr (fsub m (1 / 1000000)))"
      by (simp only: threshold_unfold [OF sq rt] c sum.case)
    also have "\<dots> = Inr (fsub (Fin ?m) (1 / 1000000))"
      by (simp only: nanmin_Fin [OF ne] sum.case)
    also have "\<dots> = Inr (Fin (?m - 1 / 1000000))"
      by (simp only: fsub.simps)
    finally show ?thesis .
  qed
  from pos k have "\<exists>i<length cats. 0 < T ! i ! k" by (rule bspec)
  then obtain i where i: "i < length cats" "0 < T ! i ! k" by (elim exE conjE)
  have mem: "T ! i \<in> set T" using i(1) len by simp
  obtain r where r: "r \<in> set T" "r ! k = ColMax T k" "0 < r ! k"
    using ColMax_attained [OF mem i(2)] by blast
  obtain i' where i': "i' < length T" "T ! i' = r"
    using r(1) by (meson in_set_conv_nth)
  have eq: "T ! i' ! k = ColMax T k" by (simp only: i'(2) r(2))
  have gt: "0 < T ! i' ! k" using r(3) by (simp only: i'(2))
  have "ColMax T k \<in> set (map (ColMax T) ?cols)" using k by simp
  then have le: "?m \<le> ColMax T k" by (intro Min_le) simp_all
  have "\<not> T ! i' ! k < ?m - 1 / 1000000" using le eq by linarith
  moreover have "i' < length cats" using i'(1) len by simp
  ultimately have "\<exists>i < length cats. 0 < T ! i ! k \<and> \<not> T ! i ! k < ?m - 1 / 1000000"
    using gt by blast
  with t show ?thesis by (rule conjI)
qed

theorem threshold_connectivity_witness:
  "square (length [''a'', ''b'', ''c'']) [[0::real, 1/2, 1/10], [0, 0, 3/10], [0, 0, 0]]
   \<and> threshold [''a'', ''b'', ''c''] (Some ''a'') [[0, 1/2, 1/10], [0, 0, 3/10], [0, 0, 0]]
       = Inr (Fin (3/10 - 1/1000000))"
proof -
  let ?T = "[[0, 1/2, 1/10], [0, 0, 3/10], [0, 0, 0::real]]"
  let ?cats = "[''a'', ''b'', ''c'']"
  have sq: "square (length ?cats) ?T" by (simp add: square_def)
  have rt: "Some ''a'' = None \<or> Some ''a'' \<in> Some ` set ?cats" by simp
  have cols: "columns ?cats (Some ''a'') = [1, 2]" by (simp add: columns_def)
  have p1: "\<exists>i < length ?cats. 0 < ?T ! i ! 1" by (rule exI [of _ 0]) simp
  have p2: "\<exists>i < length ?cats. 0 < ?T ! i ! 2" by (rule exI [of _ 0]) simp
  have pos: "\<forall>k \<in> set (columns ?cats (Some ''a'')). \<exists>i < length ?cats. 0 < ?T ! i ! k"
    unfolding cols using p1 p2 by simp
  have k: "2 \<in> set (columns ?cats (Some ''a''))" unfolding cols by simp
  have m: "ColMax ?T (Suc 0) = 1/2" "ColMax ?T 2 = 3/10" by (simp_all add: ColMax_def)
  have "threshold ?cats (Some ''a'') ?T = Inr (Fin (Min (set (map (ColMax ?T) [1, 2])) - 1 / 1000000))"
    using threshold_connectivity [OF sq rt pos k] unfolding cols by (rule conjunct1)
  then show ?thesis using sq by (simp add: m)
qed

text \<open>
  Claim C9 (undefined threshold). When no considered column of the non-negative matrix
  has a strictly positive entry, the threshold is not-a-number (or the reduction over no
  column at all raises \<^verbatim>\<open>ValueError\<close>); it is never a finite number.
\<close>

theorem threshold_undefined:
  assumes sq: "square (length cats) T"
    and rt: "rootc = None \<or> rootc \<in> Some ` set cats"
    and nn: "nonneg T"
    and none: "\<forall>k \<in> set (columns cats rootc). \<forall>i < length cats. \<not> 0 < T ! i ! k"
  shows "threshold cats rootc T = (if columns cats rootc = [] then Inl ValueError else Inr NaN)
       \<and> (\<forall>x. threshold cats rootc T \<noteq> Inr (Fin x))"
proof (cases "columns cats rootc = []")
  case True
  then show ?thesis
    unfolding threshold_unfold [OF sq rt] by (simp add: nanmin_def)
next
  case False
  let ?cols = "columns cats rootc"
  have len: "length T = length cats" using sq by (simp add: squareD)
  obtain k0 where "k0 \<in> set ?cols" using False by (meson last_in_set)
  then have "0 < length cats" by (auto simp: set_columns)
  then have ne: "T \<noteq> []" using len by auto
  have col: "nanmax (masked_column T k) = Inr NaN" if k: "k \<in> set ?cols" for k
  proof (rule nanmax_column_zero [OF ne], rule ballI)
    fix r assume "r \<in> set T"
    then obtain i where i: "i < length T" "T ! i = r" by (meson in_set_conv_nth)
    have kl: "k < length (T ! i)"
      using squareD(2) [OF sq, of i] k i(1) len by (simp add: set_columns)
    have "0 \<le> T ! i ! k" using nn i(1) kl by (rule nonnegD)
    moreover have "\<not> 0 < T ! i ! k" using none k i(1) len by simp
    ultimately show "r ! k = 0" using i(2) by simp
  qed
  have "map (\<lambda>k. nanmax (masked_column T k)) ?cols = map (\<lambda>k. Inr NaN) ?cols"
    using col by simp
  then have c: "collect (map (\<lambda>k. nanmax (masked_column T k)) ?cols) = Inr (map (\<lambda>k. NaN) ?cols)"
    by (simp only: collect_Inr)
  obtain c cs where cs: "?cols = c # cs" using False by (cases ?cols) auto
  have "nanmin (map (\<lambda>k. NaN) ?cols) = Inr NaN"
    unfolding cs by (simp add: nanmin_def foldl_fmin_NaN)
  then have "threshold cats rootc T = Inr NaN"
    unfolding threshold_unfold [OF sq rt] c by simp
  then show ?thesis using False by simp
qed

theorem threshold_undefined_witness:
  "square (length [''a'', ''b'']) [[0::real, 0], [0, 0]] \<and> nonneg [[0, 0], [0, 0]]
   \<and> threshold [''a'', ''b''] None [[0, 0], [0, 0]] = Inr NaN
   \<and> threshold [''a''] (Some ''a'') [[0]] = Inl ValueError"
proof -
  have sq: "square (length [''a'', ''b'']) [[0::real, 0], [0, 0]]" by (simp add: square_def)
  have nn: "nonneg [[0, 0], [0, 0]]" by (simp add: nonneg_def)
  have rt: "None = None \<or> None \<in> Some ` set [''a'', ''b'']" by simp
  have cols: "columns [''a'', ''b''] None = [0, 1]" by (simp add: columns_def)
  have none: "\<forall>k \<in> set (columns [''a'', ''b''] None). \<forall>i < length [''a'', ''b''].
      \<not> 0 < [[0, 0], [0, 0::real]] ! i ! k"
    unfolding cols by (auto simp: less_Suc_eq nth_Cons')
  have sq1: "square (length [''a'']) [[0::real]]" by (simp add: square_def)
  have nn1: "nonneg [[0]]" by (simp add: nonneg_def)
  have rt1: "Some ''a'' = None \<or> Some ''a'' \<in> Some ` set [''a'']" by simp
  have cols1: "columns [''a''] (Some ''a'') = []" by (simp add: columns_def)
  have none1: "\<forall>k \<in> set (columns [''a''] (Some ''a'')). \<forall>i < length [''a''].
      \<not> 0 < [[0::real]] ! i ! k"
    unfolding cols1 by simp
  show ?thesis
    using sq nn threshold_undefined [OF sq rt nn none] threshold_undefined [OF sq1 rt1 nn1 none1]
    unfolding cols cols1 by simp
qed

end
